theory Spec2Isabelle
  imports Complex_Main "HOL-Library.Sublist"
begin

section \<open>Decoded JSON values\<close>

text \<open>
  The two files of the repository work on values decoded by \<^verbatim>\<open>json\<close>: \<^verbatim>\<open>None\<close>,
  \<^verbatim>\<open>bool\<close>, \<^verbatim>\<open>int\<close> (unbounded), \<^verbatim>\<open>float\<close> (an IEEE 754 double), \<^verbatim>\<open>str\<close>,
  \<^verbatim>\<open>list\<close> and \<^verbatim>\<open>dict\<close>. A \<^verbatim>\<open>str\<close> is kept as its UTF-8 bytes; a \<^verbatim>\<open>dict\<close> is the
  list of its items in insertion order (the keys of a decoded object are distinct), and
  \<^verbatim>\<open>d[key]\<close> is \<open>map_of d key\<close>. An exception is a value of \<open>py_error\<close>: a function that can
  raise returns \<open>Inl\<close> of it.
\<close>

datatype py_error =
  TypeError | KeyError | ValueError | OverflowError | ZeroDivisionError | RecursionError

datatype pyfloat = Finite rat | NegZero | PosInf | NegInf | NaN

subsection \<open>Doubles\<close>

text \<open>
  A \<^verbatim>\<open>float\<close> is an IEEE 754 binary64 value: a finite number (a rational of the form
  \<open>m * 2 ^ e\<close> with \<open>\<bar>m\<bar> < 2 ^ 53\<close> and \<open>- 1074 \<le> e \<le> 971\<close>), a negative zero, an
  infinity or a NaN. Arithmetic rounds the exact result to the nearest double, ties to
  even, and overflows to an infinity.
\<close>

definition pow2 :: "int \<Rightarrow> rat" where
  "pow2 e = (if 0 \<le> e then 2 ^ nat e else 1 / 2 ^ nat (- e))"

function bit_length :: "int \<Rightarrow> int" where
  "bit_length n = (if n \<le> 0 then 0 else 1 + bit_length (n div 2))"
  by pat_completeness auto
termination
  by (relation "measure nat") auto

declare bit_length.simps [simp del]

text \<open>\<open>\<lfloor>log\<^sub>2 x\<rfloor>\<close> of a positive rational.\<close>

definition floor_log2 :: "rat \<Rightarrow> int" where
  "floor_log2 x =
     (if 1 \<le> x then bit_length \<lfloor>x\<rfloor> - 1 else - bit_length (\<lceil>1 / x\<rceil> - 1))"

definition round_half_even :: "rat \<Rightarrow> int" where
  "round_half_even y =
     (let f = \<lfloor>y\<rfloor>; r = y - of_int f
      in if r < 1 / 2 then f else if 1 / 2 < r then f + 1
         else if even f then f else f + 1)"

text \<open>
  A positive rational to the nearest double: the spacing of the doubles around \<open>x\<close> is
  \<open>2 ^ q\<close>, 53 significant bits for a normal number and \<open>2 ^ - 1074\<close> for a subnormal one.
\<close>

definition round_pos :: "rat \<Rightarrow> pyfloat" where
  "round_pos x =
     (let q = max (floor_log2 x - 52) (- 1074);
          v = of_int (round_half_even (x / pow2 q)) * pow2 q
      in if pow2 1024 \<le> v then PosInf else Finite v)"

fun float_neg :: "pyfloat \<Rightarrow> pyfloat" where
  "float_neg (Finite q) = (if q = 0 then NegZero else Finite (- q))"
| "float_neg NegZero = Finite 0"
| "float_neg PosInf = NegInf"
| "float_neg NegInf = PosInf"
| "float_neg NaN = NaN"

definition round_double :: "rat \<Rightarrow> pyfloat" where
  "round_double x =
     (if x = 0 then Finite 0
      else if 0 < x then round_pos x
      else float_neg (round_pos (- x)))"

text \<open>The sign bit, and the comparisons \<^verbatim>\<open>x > 0\<close>, \<^verbatim>\<open>x < y\<close> and \<^verbatim>\<open>x <= y\<close> of doubles.\<close>

fun sign_bit :: "pyfloat \<Rightarrow> bool" where
  "sign_bit (Finite q) = (q < 0)"
| "sign_bit NegZero = True"
| "sign_bit PosInf = False"
| "sign_bit NegInf = True"
| "sign_bit NaN = False"

fun is_zero :: "pyfloat \<Rightarrow> bool" where
  "is_zero (Finite q) = (q = 0)"
| "is_zero NegZero = True"
| "is_zero _ = False"

fun float_gt_zero :: "pyfloat \<Rightarrow> bool" where
  "float_gt_zero (Finite q) = (0 < q)"
| "float_gt_zero PosInf = True"
| "float_gt_zero _ = False"

fun float_lt :: "pyfloat \<Rightarrow> pyfloat \<Rightarrow> bool" where
  "float_lt NaN _ = False"
| "float_lt _ NaN = False"
| "float_lt _ NegInf = False"
| "float_lt NegInf _ = True"
| "float_lt PosInf _ = False"
| "float_lt _ PosInf = True"
| "float_lt (Finite a) (Finite b) = (a < b)"
| "float_lt (Finite a) NegZero = (a < 0)"
| "float_lt NegZero (Finite b) = (0 < b)"
| "float_lt NegZero NegZero = False"


text \<open>\<^verbatim>\<open>x + y\<close> on doubles.\<close>

fun float_add :: "pyfloat \<Rightarrow> pyfloat \<Rightarrow> pyfloat" where
  "float_add NaN _ = NaN"
| "float_add _ NaN = NaN"
| "float_add PosInf NegInf = NaN"
| "float_add NegInf PosInf = NaN"
| "float_add PosInf _ = PosInf"
| "float_add _ PosInf = PosInf"
| "float_add NegInf _ = NegInf"
| "float_add _ NegInf = NegInf"
| "float_add NegZero NegZero = NegZero"
| "float_add NegZero (Finite b) = round_double b"
| "float_add (Finite a) NegZero = round_double a"
| "float_add (Finite a) (Finite b) = round_double (a + b)"

text \<open>
  \<^verbatim>\<open>x / y\<close> on doubles: Python raises \<^verbatim>\<open>ZeroDivisionError\<close> for a zero divisor, and
  follows IEEE 754 otherwise.
\<close>

definition signed_zero :: "bool \<Rightarrow> pyfloat" where
  "signed_zero neg = (if neg then NegZero else Finite 0)"

definition signed_inf :: "bool \<Rightarrow> pyfloat" where
  "signed_inf neg = (if neg then NegInf else PosInf)"

fun is_inf :: "pyfloat \<Rightarrow> bool" where
  "is_inf PosInf = True"
| "is_inf NegInf = True"
| "is_inf _ = False"

fun float_div :: "pyfloat \<Rightarrow> pyfloat \<Rightarrow> py_error + pyfloat" where
  "float_div x y =
     (if is_zero y then Inl ZeroDivisionError
      else if x = NaN \<or> y = NaN then Inr NaN
      else if is_inf x then
        (if is_inf y then Inr NaN else Inr (signed_inf (sign_bit x \<noteq> sign_bit y)))
      else if is_inf y \<or> is_zero x then Inr (signed_zero (sign_bit x \<noteq> sign_bit y))
      else (case (x, y) of
              (Finite a, Finite b) \<Rightarrow> Inr (round_double (a / b))
            | _ \<Rightarrow> Inr NaN))"

text \<open>
  \<^verbatim>\<open>float(n)\<close> for an \<^verbatim>\<open>int\<close>: the nearest double, and \<^verbatim>\<open>OverflowError\<close> (int too
  large to convert to float) when that is beyond the largest double.
\<close>

definition float_of_int :: "int \<Rightarrow> py_error + pyfloat" where
  "float_of_int n =
     (let r = round_double (of_int n) in if is_inf r then Inl OverflowError else Inr r)"

text \<open>\<^verbatim>\<open>x / n\<close> for a double and an \<^verbatim>\<open>int\<close>: the \<^verbatim>\<open>int\<close> is converted first.\<close>

definition float_truediv_int :: "pyfloat \<Rightarrow> int \<Rightarrow> py_error + pyfloat" where
  "float_truediv_int x n =
     (case float_of_int n of Inl e \<Rightarrow> Inl e | Inr y \<Rightarrow> float_div x y)"

subsection \<open>Values\<close>

datatype json =
    JNull
  | JBool bool
  | JInt int
  | JFloat pyfloat
  | JStr string
  | JList "json list"
  | JDict "(string \<times> json) list"

subsection \<open>Strings\<close>

text \<open>\<^verbatim>\<open>sub in s\<close> for two strings: \<open>sub\<close> occurs in \<open>s\<close> as a contiguous run.\<close>

fun py_in :: "string \<Rightarrow> string \<Rightarrow> bool" where
  "py_in sub [] = (sub = [])"
| "py_in sub (c # cs) = (prefix sub (c # cs) \<or> py_in sub cs)"

text \<open>\<^verbatim>\<open>s.replace(old, "")\<close>: the occurrences of \<open>old\<close> are removed from left to right.\<close>

function py_remove :: "string \<Rightarrow> string \<Rightarrow> string" where
  "py_remove old [] = []"
| "py_remove old (c # cs) =
     (if old \<noteq> [] \<and> prefix old (c # cs)
      then py_remove old (drop (length old) (c # cs))
      else c # py_remove old cs)"
  by pat_completeness auto
termination
  by (relation "measure (\<lambda>(old, s). length s)") auto

text \<open>The yen sign U+00A5 in UTF-8.\<close>

definition yen :: string where
  "yen = [CHR 0xC2, CHR 0xA5]"

text \<open>
  \<^verbatim>\<open>str.lower\<close> needs the Unicode character database, so the price walker below takes it
  as a parameter. On an ASCII string it is \<open>ascii_lower\<close>.
\<close>

definition ascii_lower_char :: "char \<Rightarrow> char" where
  "ascii_lower_char c =
     (case map_of (zip ''ABCDEFGHIJKLMNOPQRSTUVWXYZ'' ''abcdefghijklmnopqrstuvwxyz'') c of
        Some l \<Rightarrow> l
      | None \<Rightarrow> c)"

definition ascii_lower :: "string \<Rightarrow> string" where
  "ascii_lower s = map ascii_lower_char s"

text \<open>\<^verbatim>\<open>str(n)\<close> for an \<^verbatim>\<open>int\<close>.\<close>

function show_nat :: "int \<Rightarrow> string" where
  "show_nat n =
     (if n < 10 then [''0123456789'' ! nat n]
      else show_nat (n div 10) @ [''0123456789'' ! nat (n mod 10)])"
  by pat_completeness auto
termination
  by (relation "measure nat") auto

declare show_nat.simps [simp del]

definition show_int :: "int \<Rightarrow> string" where
  "show_int n = (if n < 0 then CHR ''-'' # show_nat (- n) else show_nat n)"

subsection \<open>\<^verbatim>\<open>float(s)\<close> on an ASCII string\<close>

text \<open>
  \<^verbatim>\<open>float(s)\<close> also accepts the decimal digits and the white space of any script, which
  the Unicode character database lists, so the price walker takes it as a parameter too:
  \<open>None\<close> stands for \<^verbatim>\<open>ValueError\<close>. On an ASCII string it is \<open>float_of_ascii\<close>: white
  space is stripped at both ends, an underscore may stand between two digits, and what is
  left is a sign followed by \<^verbatim>\<open>inf\<close>, \<^verbatim>\<open>infinity\<close>, \<^verbatim>\<open>nan\<close> (in any case) or by a decimal
  number \<^verbatim>\<open>digits [. digits] [e [sign] digits]\<close> with a digit before or after the point.
  The decimal value is rounded to the nearest double.
\<close>

definition is_space :: "char \<Rightarrow> bool" where
  "is_space c = (c \<in> set [CHR 0x09, CHR 0x0A, CHR 0x0B, CHR 0x0C, CHR 0x0D, CHR '' ''])"

definition is_digit :: "char \<Rightarrow> bool" where
  "is_digit c = (c \<in> set ''0123456789'')"

definition digit_val :: "char \<Rightarrow> int" where
  "digit_val c = int (length (takeWhile (\<lambda>d. d \<noteq> c) ''0123456789''))"

definition digits_val :: "string \<Rightarrow> int" where
  "digits_val ds = foldl (\<lambda>a c. 10 * a + digit_val c) 0 ds"

definition strip :: "string \<Rightarrow> string" where
  "strip s = rev (dropWhile is_space (rev (dropWhile is_space s)))"

text \<open>Every underscore stands between two digits.\<close>

fun underscores_ok :: "char option \<Rightarrow> string \<Rightarrow> bool" where
  "underscores_ok prev [] = True"
| "underscores_ok prev (c # cs) =
     (if c = CHR ''_''
      then (case prev of Some p \<Rightarrow> is_digit p | None \<Rightarrow> False) \<and>
           (case cs of d # _ \<Rightarrow> is_digit d | [] \<Rightarrow> False) \<and>
           underscores_ok (Some c) cs
      else underscores_ok (Some c) cs)"

definition pow10 :: "int \<Rightarrow> rat" where
  "pow10 e = (if 0 \<le> e then 10 ^ nat e else 1 / 10 ^ nat (- e))"

text \<open>The exponent part, after the \<^verbatim>\<open>e\<close>: an optional sign and at least one digit.\<close>

definition parse_exponent :: "string \<Rightarrow> int option" where
  "parse_exponent s =
     (let (neg, ds) =
            (case s of
               c # cs \<Rightarrow> if c = CHR ''-'' then (True, cs)
                          else if c = CHR ''+'' then (False, cs) else (False, s)
             | [] \<Rightarrow> (False, s))
      in if ds \<noteq> [] \<and> list_all is_digit ds
         then Some (if neg then - digits_val ds else digits_val ds)
         else None)"

text \<open>An unsigned decimal number, as an exact rational.\<close>

definition parse_decimal :: "string \<Rightarrow> rat option" where
  "parse_decimal s =
     (let mant = takeWhile (\<lambda>c. c \<noteq> CHR ''e'' \<and> c \<noteq> CHR ''E'') s;
          rest = dropWhile (\<lambda>c. c \<noteq> CHR ''e'' \<and> c \<noteq> CHR ''E'') s;
          ip = takeWhile is_digit mant;
          after = dropWhile is_digit mant;
          fp = (case after of c # cs \<Rightarrow> if c = CHR ''.'' then Some cs else None
                | [] \<Rightarrow> Some []);
          ex = (case rest of [] \<Rightarrow> Some 0 | _ # es \<Rightarrow> parse_exponent es)
      in case (fp, ex) of
           (Some fd, Some e) \<Rightarrow>
             if list_all is_digit fd \<and> (ip \<noteq> [] \<or> fd \<noteq> [])
             then Some (of_int (digits_val (ip @ fd)) * pow10 (e - int (length fd)))
             else None
         | _ \<Rightarrow> None)"

definition float_of_ascii :: "string \<Rightarrow> pyfloat option" where
  "float_of_ascii s0 =
     (let s = strip s0 in
      if \<not> underscores_ok None s then None
      else
        (let t = filter (\<lambda>c. c \<noteq> CHR ''_'') s;
             (neg, body) =
               (case t of
                  c # cs \<Rightarrow> if c = CHR ''-'' then (True, cs)
                             else if c = CHR ''+'' then (False, cs) else (False, t)
                | [] \<Rightarrow> (False, t));
             low = ascii_lower body
         in if low = ''inf'' \<or> low = ''infinity'' then Some (if neg then NegInf else PosInf)
            else if low = ''nan'' then Some NaN
            else (case parse_decimal body of
                    None \<Rightarrow> None
                  | Some x \<Rightarrow>
                      Some (if neg then float_neg (round_double x) else round_double x))))"

section \<open>Shape extractor: \<^verbatim>\<open>extract_cards_from_response\<close>\<close>

definition candidate_keys :: "string list" where
  "candidate_keys = [''items'', ''list'', ''data'', ''results'', ''cards'', ''products'']"

definition nested_keys :: "string list" where
  "nested_keys = [''items'', ''list'', ''results'', ''cards'']"

text \<open>
  \<^verbatim>\<open>for key in keys: if key in d and isinstance(d[key], list): return d[key]\<close>;
  \<open>None\<close> when the loop falls through.
\<close>

fun probe :: "string list \<Rightarrow> (string \<times> json) list \<Rightarrow> json list option" where
  "probe [] d = None"
| "probe (key # keys) d =
     (case map_of d key of
        Some (JList xs) \<Rightarrow> Some xs
      | _ \<Rightarrow> probe keys d)"

fun extract_cards_from_response :: "json \<Rightarrow> json list" where
  "extract_cards_from_response (JDict d) =
     (case probe candidate_keys d of
        Some xs \<Rightarrow> xs
      | None \<Rightarrow>
          (case map_of d ''data'' of
             Some (JDict dd) \<Rightarrow>
               (case probe nested_keys dd of Some xs \<Rightarrow> xs | None \<Rightarrow> [])
           | _ \<Rightarrow> []))"
| "extract_cards_from_response _ = []"

section \<open>Card id extractor: \<^verbatim>\<open>extract_card_id\<close>\<close>

definition id_fields :: "string list" where
  "id_fields = [''id'', ''cardId'', ''tradingCardId'', ''productId'', ''item_id'']"

text \<open>
  \<^verbatim>\<open>field in card_item\<close>: a key of a \<^verbatim>\<open>dict\<close>, an element of a \<^verbatim>\<open>list\<close>, a substring of a
  \<^verbatim>\<open>str\<close>; any other value is not iterable.
\<close>

fun py_contains :: "json \<Rightarrow> string \<Rightarrow> py_error + bool" where
  "py_contains (JDict d) field = Inr (map_of d field \<noteq> None)"
| "py_contains (JList xs) field = Inr (JStr field \<in> set xs)"
| "py_contains (JStr s) field = Inr (py_in field s)"
| "py_contains _ field = Inl TypeError"

text \<open>\<^verbatim>\<open>card_item[field]\<close> with a \<^verbatim>\<open>str\<close> as the subscript.\<close>

fun py_getitem :: "json \<Rightarrow> string \<Rightarrow> py_error + json" where
  "py_getitem (JDict d) field =
     (case map_of d field of Some v \<Rightarrow> Inr v | None \<Rightarrow> Inl KeyError)"
| "py_getitem _ field = Inl TypeError"

text \<open>
  \<^verbatim>\<open>str(v)\<close>. The \<^verbatim>\<open>repr\<close> of a \<^verbatim>\<open>float\<close> (its shortest decimal form) and of a \<^verbatim>\<open>list\<close> or
  a \<^verbatim>\<open>dict\<close> (which quotes and escapes the strings inside) are the parameter \<open>repr\<close>.
\<close>

fun py_str :: "(json \<Rightarrow> string) \<Rightarrow> json \<Rightarrow> string" where
  "py_str repr JNull = ''None''"
| "py_str repr (JBool b) = (if b then ''True'' else ''False'')"
| "py_str repr (JInt n) = show_int n"
| "py_str repr (JStr s) = s"
| "py_str repr v = repr v"

text \<open>\<^verbatim>\<open>for field in fields: if field in card_item: return str(card_item[field])\<close>.\<close>

fun probe_fields :: "(json \<Rightarrow> string) \<Rightarrow> string list \<Rightarrow> json \<Rightarrow> py_error + string option" where
  "probe_fields repr [] card_item = Inr None"
| "probe_fields repr (field # fields) card_item =
     (case py_contains card_item field of
        Inl e \<Rightarrow> Inl e
      | Inr True \<Rightarrow>
          (case py_getitem card_item field of
             Inl e \<Rightarrow> Inl e
           | Inr v \<Rightarrow> Inr (Some (py_str repr v)))
      | Inr False \<Rightarrow> probe_fields repr fields card_item)"

definition extract_card_id :: "(json \<Rightarrow> string) \<Rightarrow> json \<Rightarrow> py_error + string option" where
  "extract_card_id repr card_item = probe_fields repr id_fields card_item"

section \<open>Price walker: \<^verbatim>\<open>extract_price_info\<close>\<close>

record price_info =
  lowest_price :: "pyfloat option"
  highest_price :: "pyfloat option"
  average_price :: "pyfloat option"
  all_prices :: "pyfloat list"

text \<open>
  \<^verbatim>\<open>any(price_key in key_lower for price_key in ["price", "amount", "value"])\<close> with
  \<^verbatim>\<open>key_lower = key.lower()\<close>.
\<close>

definition is_price_key :: "(string \<Rightarrow> string) \<Rightarrow> string \<Rightarrow> bool" where
  "is_price_key lower key =
     (let key_lower = lower key
      in list_ex (\<lambda>price_key. py_in price_key key_lower) [''price'', ''amount'', ''value''])"

text \<open>
  \<^verbatim>\<open>isinstance(value, (int, float))\<close> (a \<^verbatim>\<open>bool\<close> is an \<^verbatim>\<open>int\<close>), \<^verbatim>\<open>value > 0\<close> and
  \<^verbatim>\<open>float(value)\<close> for such a value.
\<close>

fun is_int_or_float :: "json \<Rightarrow> bool" where
  "is_int_or_float (JBool b) = True"
| "is_int_or_float (JInt n) = True"
| "is_int_or_float (JFloat x) = True"
| "is_int_or_float _ = False"

fun number_gt_zero :: "json \<Rightarrow> bool" where
  "number_gt_zero (JBool b) = ((if b then 1 else 0) > (0::int))"
| "number_gt_zero (JInt n) = (n > 0)"
| "number_gt_zero (JFloat x) = float_gt_zero x"
| "number_gt_zero _ = False"

fun py_float :: "json \<Rightarrow> py_error + pyfloat" where
  "py_float (JBool b) = float_of_int (if b then 1 else 0)"
| "py_float (JInt n) = float_of_int n"
| "py_float (JFloat x) = Inr x"
| "py_float _ = Inl TypeError"

text \<open>
  The body of the first loop of \<^verbatim>\<open>walk\<close> for one item of a \<^verbatim>\<open>dict\<close>; \<open>prices\<close> is
  \<^verbatim>\<open>price_info["all_prices"]\<close>, which the source appends to. The \<^verbatim>\<open>try\<close> block catches
  what \<^verbatim>\<open>float\<close> raises on a string; the conversion of a number stands outside it.
\<close>

definition visit_item ::
  "(string \<Rightarrow> string) \<Rightarrow> (string \<Rightarrow> pyfloat option) \<Rightarrow> string \<times> json \<Rightarrow> pyfloat list
     \<Rightarrow> py_error + pyfloat list" where
  "visit_item lower pfloat item prices =
     (let (key, value) = item in
      if is_price_key lower key then
        (if is_int_or_float value \<and> number_gt_zero value then
           (case py_float value of
              Inl e \<Rightarrow> Inl e
            | Inr f \<Rightarrow> Inr (prices @ [f]))
         else
           (case value of
              JStr s \<Rightarrow>
                (case pfloat (py_remove ''$'' (py_remove yen (py_remove '','' s))) of
                   None \<Rightarrow> Inr prices
                 | Some price_val \<Rightarrow>
                     if float_gt_zero price_val then Inr (prices @ [price_val])
                     else Inr prices)
            | _ \<Rightarrow> Inr prices))
      else Inr prices)"

fun visit_items ::
  "(string \<Rightarrow> string) \<Rightarrow> (string \<Rightarrow> pyfloat option) \<Rightarrow> (string \<times> json) list \<Rightarrow> pyfloat list
     \<Rightarrow> py_error + pyfloat list" where
  "visit_items lower pfloat [] prices = Inr prices"
| "visit_items lower pfloat (item # items) prices =
     (case visit_item lower pfloat item prices of
        Inl e \<Rightarrow> Inl e
      | Inr prices' \<Rightarrow> visit_items lower pfloat items prices')"

text \<open>
  \<^verbatim>\<open>walk\<close>: on a \<^verbatim>\<open>dict\<close> the loop over the items, then the loop over the values; on a
  \<^verbatim>\<open>list\<close> the loop over the elements; nothing on any other value. An exception leaves
  the loops at once. The recursion follows the nesting of the value. \<open>walk\<close> is the function
  on a stack without a limit; \<open>walk_within\<close> below is the function with the interpreter's
  limit on the depth of recursion.
\<close>

fun walk ::
  "(string \<Rightarrow> string) \<Rightarrow> (string \<Rightarrow> pyfloat option) \<Rightarrow> json \<Rightarrow> pyfloat list
     \<Rightarrow> py_error + pyfloat list"
and walk_values ::
  "(string \<Rightarrow> string) \<Rightarrow> (string \<Rightarrow> pyfloat option) \<Rightarrow> (string \<times> json) list \<Rightarrow> pyfloat list
     \<Rightarrow> py_error + pyfloat list"
and walk_list ::
  "(string \<Rightarrow> string) \<Rightarrow> (string \<Rightarrow> pyfloat option) \<Rightarrow> json list \<Rightarrow> pyfloat list
     \<Rightarrow> py_error + pyfloat list" where
  "walk lower pfloat (JDict d) prices =
     (case visit_items lower pfloat d prices of
        Inl e \<Rightarrow> Inl e
      | Inr prices' \<Rightarrow> walk_values lower pfloat d prices')"
| "walk lower pfloat (JList xs) prices = walk_list lower pfloat xs prices"
| "walk lower pfloat JNull prices = Inr prices"
| "walk lower pfloat (JBool b) prices = Inr prices"
| "walk lower pfloat (JInt n) prices = Inr prices"
| "walk lower pfloat (JFloat x) prices = Inr prices"
| "walk lower pfloat (JStr s) prices = Inr prices"
| "walk_values lower pfloat [] prices = Inr prices"
| "walk_values lower pfloat (item # items) prices =
     (case walk lower pfloat (snd item) prices of
        Inl e \<Rightarrow> Inl e
      | Inr prices' \<Rightarrow> walk_values lower pfloat items prices')"
| "walk_list lower pfloat [] prices = Inr prices"
| "walk_list lower pfloat (x # xs) prices =
     (case walk lower pfloat x prices of
        Inl e \<Rightarrow> Inl e
      | Inr prices' \<Rightarrow> walk_list lower pfloat xs prices')"

text \<open>
  The interpreter raises \<^verbatim>\<open>RecursionError\<close> when a call would exceed its recursion limit.
  \<open>walk_within lower pfloat n obj prices\<close> is the call \<^verbatim>\<open>walk(obj)\<close> made when \<open>n\<close> more
  frames are allowed. The call itself takes one. What is left must hold the recursive
  calls, and in CPython 3.11, on a \<^verbatim>\<open>dict\<close>, also the calls of the methods \<^verbatim>\<open>items\<close>,
  \<^verbatim>\<open>lower\<close> and \<^verbatim>\<open>values\<close> (one frame, also needed for an empty \<^verbatim>\<open>dict\<close>) and the call of
  \<^verbatim>\<open>any\<close> with its generator expression (two frames, needed once the \<^verbatim>\<open>dict\<close> has an item).
  None of these calls stands in the \<^verbatim>\<open>try\<close> block, so the exception leaves \<^verbatim>\<open>walk\<close>.
\<close>

fun walk_within ::
  "(string \<Rightarrow> string) \<Rightarrow> (string \<Rightarrow> pyfloat option) \<Rightarrow> nat \<Rightarrow> json \<Rightarrow> pyfloat list
     \<Rightarrow> py_error + pyfloat list"
and walk_values_within ::
  "(string \<Rightarrow> string) \<Rightarrow> (string \<Rightarrow> pyfloat option) \<Rightarrow> nat \<Rightarrow> (string \<times> json) list
     \<Rightarrow> pyfloat list \<Rightarrow> py_error + pyfloat list"
and walk_list_within ::
  "(string \<Rightarrow> string) \<Rightarrow> (string \<Rightarrow> pyfloat option) \<Rightarrow> nat \<Rightarrow> json list \<Rightarrow> pyfloat list
     \<Rightarrow> py_error + pyfloat list" where
  "walk_within lower pfloat 0 obj prices = Inl RecursionError"
| "walk_within lower pfloat (Suc n) (JDict d) prices =
     (if n < 1 \<or> (d \<noteq> [] \<and> n < 2) then Inl RecursionError
      else
        (case visit_items lower pfloat d prices of
           Inl e \<Rightarrow> Inl e
         | Inr prices' \<Rightarrow> walk_values_within lower pfloat n d prices'))"
| "walk_within lower pfloat (Suc n) (JList xs) prices = walk_list_within lower pfloat n xs prices"
| "walk_within lower pfloat (Suc n) JNull prices = Inr prices"
| "walk_within lower pfloat (Suc n) (JBool b) prices = Inr prices"
| "walk_within lower pfloat (Suc n) (JInt i) prices = Inr prices"
| "walk_within lower pfloat (Suc n) (JFloat x) prices = Inr prices"
| "walk_within lower pfloat (Suc n) (JStr s) prices = Inr prices"
| "walk_values_within lower pfloat n [] prices = Inr prices"
| "walk_values_within lower pfloat n (item # items) prices =
     (case walk_within lower pfloat n (snd item) prices of
        Inl e \<Rightarrow> Inl e
      | Inr prices' \<Rightarrow> walk_values_within lower pfloat n items prices')"
| "walk_list_within lower pfloat n [] prices = Inr prices"
| "walk_list_within lower pfloat n (x # xs) prices =
     (case walk_within lower pfloat n x prices of
        Inl e \<Rightarrow> Inl e
      | Inr prices' \<Rightarrow> walk_list_within lower pfloat n xs prices')"

text \<open>The number of frames that \<^verbatim>\<open>walk(obj)\<close> needs.\<close>

fun frames_needed :: "json \<Rightarrow> nat"
and frames_needed_values :: "(string \<times> json) list \<Rightarrow> nat"
and frames_needed_list :: "json list \<Rightarrow> nat" where
  "frames_needed (JDict d) = Suc (max (if d = [] then 1 else 2) (frames_needed_values d))"
| "frames_needed (JList xs) = Suc (frames_needed_list xs)"
| "frames_needed JNull = 1"
| "frames_needed (JBool b) = 1"
| "frames_needed (JInt i) = 1"
| "frames_needed (JFloat x) = 1"
| "frames_needed (JStr s) = 1"
| "frames_needed_values [] = 0"
| "frames_needed_values (item # items) =
     max (frames_needed (snd item)) (frames_needed_values items)"
| "frames_needed_list [] = 0"
| "frames_needed_list (x # xs) = max (frames_needed x) (frames_needed_list xs)"

text \<open>A value nested in \<open>n\<close> lists.\<close>

fun nested_lists :: "nat \<Rightarrow> json \<Rightarrow> json" where
  "nested_lists 0 v = v"
| "nested_lists (Suc n) v = JList [nested_lists n v]"

text \<open>
  \<^verbatim>\<open>min\<close> and \<^verbatim>\<open>max\<close> of a list: the first element, replaced by each later one that is
  smaller (greater); \<^verbatim>\<open>ValueError\<close> on an empty list.
\<close>

fun py_min :: "pyfloat list \<Rightarrow> py_error + pyfloat" where
  "py_min [] = Inl ValueError"
| "py_min (x # xs) = Inr (foldl (\<lambda>m y. if float_lt y m then y else m) x xs)"

fun py_max :: "pyfloat list \<Rightarrow> py_error + pyfloat" where
  "py_max [] = Inl ValueError"
| "py_max (x # xs) = Inr (foldl (\<lambda>m y. if float_lt m y then y else m) x xs)"

text \<open>
  \<^verbatim>\<open>sum\<close> of a list of doubles starts from the \<^verbatim>\<open>int\<close> 0 and adds from left to right;
  from Python 3.12 on it carries a compensation term as well, so \<^verbatim>\<open>extract_price_info\<close>
  takes the built-in as the parameter \<open>psum\<close>. \<open>py_sum\<close> is the plain left-to-right sum.
\<close>

definition py_sum :: "pyfloat list \<Rightarrow> pyfloat" where
  "py_sum xs = foldl float_add (Finite 0) xs"

definition extract_price_info ::
  "(string \<Rightarrow> string) \<Rightarrow> (string \<Rightarrow> pyfloat option) \<Rightarrow> (pyfloat list \<Rightarrow> pyfloat) \<Rightarrow> json
     \<Rightarrow> py_error + price_info" where
  "extract_price_info lower pfloat psum data =
     (case walk lower pfloat data [] of
        Inl e \<Rightarrow> Inl e
      | Inr prices \<Rightarrow>
          if prices \<noteq> [] then
            (case py_min prices of
               Inl e \<Rightarrow> Inl e
             | Inr lo \<Rightarrow>
                 (case py_max prices of
                    Inl e \<Rightarrow> Inl e
                  | Inr hi \<Rightarrow>
                      (case float_truediv_int (psum prices) (int (length prices)) of
                         Inl e \<Rightarrow> Inl e
                       | Inr avg \<Rightarrow>
                           Inr \<lparr>lowest_price = Some lo, highest_price = Some hi,
                                average_price = Some avg, all_prices = prices\<rparr>)))
          else
            Inr \<lparr>lowest_price = None, highest_price = None, average_price = None,
                 all_prices = []\<rparr>)"

section \<open>Auxiliary predicates and example values\<close>

definition appends_positive :: "pyfloat list \<Rightarrow> py_error + pyfloat list \<Rightarrow> bool" where
  "appends_positive prices res \<longleftrightarrow>
     res = Inl OverflowError \<or>
     (\<exists>new. res = Inr (prices @ new) \<and> (\<forall>x\<in>set new. float_gt_zero x))"

definition zero_and_negative_example :: json where
  "zero_and_negative_example =
     JDict [(''price'', JInt 0), (''amount'', JInt (- 5)), (''minValue'', JStr ''-3''),
            (''maxPrice'', JStr ''0''), (''lastPrice'', JFloat (Finite (- 1 / 2))),
            (''name'', JInt 7), (''askPrice'', JFloat (Finite (5 / 2))),
            (''bids'', JList [JDict [(''Amount'', JStr ''$12'')], JDict [(''amount'', JFloat NaN)]])]"

definition streetwears_example :: json where
  "streetwears_example =
     JDict [(''streetwears'',
             JList [JDict [(''id'', JInt 1), (''minPrice'', JStr ''$1,000'')],
                    JDict [(''id'', JInt 2), (''minPrice'', JInt 500)]])]"

fun ints_in_float_range :: "json \<Rightarrow> bool" where
  "ints_in_float_range (JInt n) = (n < 2 ^ 1023)"
| "ints_in_float_range (JList xs) = (\<forall>x\<in>set xs. ints_in_float_range x)"
| "ints_in_float_range (JDict d) = (\<forall>item\<in>set d. ints_in_float_range (snd item))"
| "ints_in_float_range _ = True"




definition overflow_before_true_example :: json where
  "overflow_before_true_example = JDict [(''amount'', JInt (10 ^ 309)), (''price'', JBool True)]"

section \<open>Properties of the doubles\<close>

lemma pow2_powi: "pow2 e = 2 powi e"
  by (simp add: pow2_def power_int_def power_one_over)

lemma pow2_pos: "0 < pow2 e"
  by (simp add: pow2_powi)

lemma pow2_add: "pow2 (a + b) = pow2 a * pow2 b"
  by (simp add: pow2_powi power_int_add)

lemma pow2_mono: "a \<le> b \<Longrightarrow> pow2 a \<le> pow2 b"
  by (simp add: pow2_powi power_int_increasing)

lemma pow2_nat: "0 \<le> e \<Longrightarrow> pow2 e = 2 ^ nat e"
  by (simp add: pow2_def)

lemma bit_length_bounds:
  "0 < n \<Longrightarrow> 1 \<le> bit_length n \<and> 2 ^ nat (bit_length n - 1) \<le> n \<and> n < 2 ^ nat (bit_length n)"
proof (induction n rule: bit_length.induct)
  case (1 n)
  show ?case
  proof (cases "n = 1")
    case True
    have "bit_length 1 = 1" by (simp add: bit_length.simps)
    with True show ?thesis by simp
  next
    case False
    with "1.prems" have h: "0 < n div 2" by simp
    from "1.prems" have neg: "\<not> n \<le> 0" by simp
    from "1.IH"[OF neg h] have ih: "1 \<le> bit_length (n div 2)"
      "2 ^ nat (bit_length (n div 2) - 1) \<le> n div 2" "n div 2 < 2 ^ nat (bit_length (n div 2))"
      by simp_all
    have bl: "bit_length n = 1 + bit_length (n div 2)"
      using neg by (subst bit_length.simps) simp
    have e1: "nat (bit_length n - 1) = Suc (nat (bit_length (n div 2) - 1))"
      using bl ih(1) by simp
    have e2: "nat (bit_length n) = Suc (nat (bit_length (n div 2)))"
      using bl ih(1) by simp
    have "2 * 2 ^ nat (bit_length (n div 2) - 1) \<le> n"
      using ih(2) by linarith
    moreover have "n < 2 * 2 ^ nat (bit_length (n div 2))"
      using ih(3) by linarith
    ultimately show ?thesis using bl ih(1) e1 e2 by simp
  qed
qed

lemma bit_length_pow2_bounds:
  assumes "0 < n"
  shows "pow2 (bit_length n - 1) \<le> of_int n" "of_int n < pow2 (bit_length n)"
proof -
  from bit_length_bounds[OF assms]
  have b: "1 \<le> bit_length n" "2 ^ nat (bit_length n - 1) \<le> n" "n < 2 ^ nat (bit_length n)"
    by simp_all
  have "(of_int (2 ^ nat (bit_length n - 1)) :: rat) \<le> of_int n"
    using b(2) by (simp only: of_int_le_iff)
  then show "pow2 (bit_length n - 1) \<le> of_int n"
    using b(1) by (simp add: pow2_nat)
  have "(of_int n :: rat) < of_int (2 ^ nat (bit_length n))"
    using b(3) by (simp only: of_int_less_iff)
  then show "of_int n < pow2 (bit_length n)"
    using b(1) by (simp add: pow2_nat)
qed

lemma floor_log2_bounds:
  assumes "0 < x"
  shows "pow2 (floor_log2 x) \<le> x" "x < pow2 (floor_log2 x + 1)"
proof -
  have "pow2 (floor_log2 x) \<le> x \<and> x < pow2 (floor_log2 x + 1)"
  proof (cases "1 \<le> x")
    case True
    then have n: "0 < \<lfloor>x\<rfloor>" by simp
    have fl: "floor_log2 x = bit_length \<lfloor>x\<rfloor> - 1" using True by (simp add: floor_log2_def)
    have "pow2 (bit_length \<lfloor>x\<rfloor> - 1) \<le> of_int \<lfloor>x\<rfloor>"
      by (rule bit_length_pow2_bounds[OF n])
    also have "\<dots> \<le> x" by simp
    finally have lo: "pow2 (floor_log2 x) \<le> x" using fl by simp
    have "of_int (\<lfloor>x\<rfloor> + 1) \<le> (pow2 (bit_length \<lfloor>x\<rfloor>) :: rat)"
    proof -
      from bit_length_bounds[OF n] have "\<lfloor>x\<rfloor> + 1 \<le> 2 ^ nat (bit_length \<lfloor>x\<rfloor>)"
        and "1 \<le> bit_length \<lfloor>x\<rfloor>" by simp_all
      then have "(of_int (\<lfloor>x\<rfloor> + 1) :: rat) \<le> of_int (2 ^ nat (bit_length \<lfloor>x\<rfloor>))"
        by (simp only: of_int_le_iff)
      with \<open>1 \<le> bit_length \<lfloor>x\<rfloor>\<close> show ?thesis by (simp add: pow2_nat)
    qed
    moreover have "x < of_int (\<lfloor>x\<rfloor> + 1)" by linarith
    ultimately have "x < pow2 (bit_length \<lfloor>x\<rfloor>)" by linarith
    with lo fl show ?thesis by simp
  next
    case False
    define y where "y = 1 / x"
    define k where "k = \<lceil>y\<rceil> - 1"
    from False assms have y1: "1 < y" by (simp add: y_def)
    then have k: "0 < k" unfolding k_def by linarith
    have ky: "of_int k < y" "y \<le> of_int k + 1" unfolding k_def by linarith+
    have fl: "floor_log2 x = - bit_length k"
      using False by (simp add: floor_log2_def k_def y_def)
    from bit_length_pow2_bounds[OF k]
    have b: "pow2 (bit_length k - 1) \<le> of_int k" "(of_int k :: rat) < pow2 (bit_length k)" .
    have "of_int (k + 1) \<le> (pow2 (bit_length k) :: rat)"
    proof -
      from bit_length_bounds[OF k] have "k + 1 \<le> 2 ^ nat (bit_length k)"
        and "1 \<le> bit_length k" by simp_all
      then have "(of_int (k + 1) :: rat) \<le> of_int (2 ^ nat (bit_length k))"
        by (simp only: of_int_le_iff)
      with \<open>1 \<le> bit_length k\<close> show ?thesis by (simp add: pow2_nat)
    qed
    with ky have yhi: "y \<le> pow2 (bit_length k)" by simp
    from b ky have ylo: "pow2 (bit_length k - 1) < y" by linarith
    have inv: "pow2 (- e) = 1 / pow2 e" for e
      by (simp add: pow2_powi power_int_minus_divide)
    have x_eq: "x = 1 / y" using assms by (simp add: y_def)
    have "pow2 (- bit_length k) \<le> x"
      unfolding inv x_eq using yhi y1 pow2_pos[of "bit_length k"]
      by (simp add: frac_le)
    moreover have "x < pow2 (- bit_length k + 1)"
    proof -
      have "pow2 (- bit_length k + 1) = 1 / pow2 (bit_length k - 1)"
        using inv[of "bit_length k - 1"] by simp
      moreover have "1 / y < 1 / pow2 (bit_length k - 1)"
        using ylo pow2_pos[of "bit_length k - 1"] by (simp add: frac_less2)
      ultimately show ?thesis using x_eq by simp
    qed
    ultimately show ?thesis using fl by simp
  qed
  then show "pow2 (floor_log2 x) \<le> x" "x < pow2 (floor_log2 x + 1)" by simp_all
qed

lemma round_half_even_bounds:
  "\<lfloor>y\<rfloor> \<le> round_half_even y" "round_half_even y \<le> \<lfloor>y\<rfloor> + 1"
  "of_int (round_half_even y) \<le> y + 1 / 2" "y - 1 / 2 \<le> of_int (round_half_even y)"
proof -
  show "\<lfloor>y\<rfloor> \<le> round_half_even y" "round_half_even y \<le> \<lfloor>y\<rfloor> + 1"
    by (simp_all add: round_half_even_def Let_def)
  have f: "of_int \<lfloor>y\<rfloor> \<le> y" "y < of_int \<lfloor>y\<rfloor> + 1" by linarith+
  show "of_int (round_half_even y) \<le> y + 1 / 2"
    by (auto simp: round_half_even_def Let_def; insert f; linarith)
  show "y - 1 / 2 \<le> of_int (round_half_even y)"
    by (auto simp: round_half_even_def Let_def; insert f; linarith)
qed

lemma pow2_less_imp: "pow2 a < pow2 b \<Longrightarrow> a < b"
  using pow2_mono[of b a] by (cases "a < b") auto

lemma pow2_numeral_nat: "pow2 (int n) = 2 ^ n"
  by (simp add: pow2_def)

text \<open>Rounding a rational \<open>x \<ge> 1\<close>: the result lies in the binade of \<open>x\<close>.\<close>

lemma round_pos_normal:
  assumes "1 \<le> x"
  defines "fl \<equiv> floor_log2 x"
  defines "v \<equiv> of_int (round_half_even (x / pow2 (fl - 52))) * pow2 (fl - 52)"
  shows "round_pos x = (if pow2 1024 \<le> v then PosInf else Finite v)"
    and "pow2 fl \<le> v" and "v \<le> pow2 (fl + 1)" and "0 \<le> fl"
proof -
  have x0: "0 < x" using assms(1) by simp
  from floor_log2_bounds[OF x0] have b: "pow2 fl \<le> x" "x < pow2 (fl + 1)"
    by (simp_all add: fl_def)
  have "pow2 0 < pow2 (fl + 1)" using b(2) assms(1) by (simp add: pow2_def)
  then have "0 < fl + 1" by (rule pow2_less_imp)
  then show fl0: "0 \<le> fl" by simp
  then have q: "max (fl - 52) (- 1074) = fl - 52" by simp
  show "round_pos x = (if pow2 1024 \<le> v then PosInf else Finite v)"
    unfolding round_pos_def Let_def fl_def[symmetric] q v_def ..
  define q where "q = fl - 52"
  define y where "y = x / pow2 q"
  have qpos: "0 < pow2 q" by (rule pow2_pos)
  have p52: "pow2 fl = pow2 52 * pow2 q"
    using pow2_add[of 52 q] by (simp add: q_def)
  have p53: "pow2 (fl + 1) = pow2 53 * pow2 q"
    using pow2_add[of 53 q] by (simp add: q_def add.commute)
  have ylo: "pow2 52 \<le> y"
    using b(1) qpos unfolding y_def p52 by (simp add: pos_le_divide_eq)
  have yhi: "y < pow2 53"
    using b(2) qpos unfolding y_def p53 by (simp add: pos_divide_less_eq)
  have i52: "pow2 52 = of_int (2 ^ 52)" by (simp add: pow2_def)
  have i53: "pow2 53 = of_int (2 ^ 53)" by (simp add: pow2_def)
  have "(2 ^ 52 :: int) \<le> \<lfloor>y\<rfloor>"
    using ylo unfolding i52 by (simp only: le_floor_iff)
  with round_half_even_bounds(1)[of y] have mlo: "2 ^ 52 \<le> round_half_even y" by linarith
  have "\<lfloor>y\<rfloor> < (2 ^ 53 :: int)"
    using yhi unfolding i53 by (simp only: floor_less_iff)
  with round_half_even_bounds(2)[of y] have mhi: "round_half_even y \<le> 2 ^ 53" by linarith
  have v: "v = of_int (round_half_even y) * pow2 q" by (simp add: v_def y_def q_def)
  have "pow2 52 * pow2 q \<le> of_int (round_half_even y) * pow2 q"
  proof (rule mult_right_mono)
    show "pow2 52 \<le> of_int (round_half_even y)"
      unfolding i52 using mlo by (simp only: of_int_le_iff)
    show "0 \<le> pow2 q" using qpos by simp
  qed
  then show "pow2 fl \<le> v" by (simp add: v p52)
  have "of_int (round_half_even y) * pow2 q \<le> pow2 53 * pow2 q"
  proof (rule mult_right_mono)
    show "of_int (round_half_even y) \<le> pow2 53"
      unfolding i53 using mhi by (simp only: of_int_le_iff)
    show "0 \<le> pow2 q" using qpos by simp
  qed
  then show "v \<le> pow2 (fl + 1)" by (simp add: v p53)
qed

lemma round_pos_gt_zero:
  assumes "1 \<le> x"
  shows "float_gt_zero (round_pos x)"
proof -
  have "0 < pow2 (floor_log2 x)" by (rule pow2_pos)
  with round_pos_normal(2)[OF assms]
  have "0 < of_int (round_half_even (x / pow2 (floor_log2 x - 52))) * pow2 (floor_log2 x - 52)"
    by linarith
  then show ?thesis
    by (simp add: round_pos_normal(1)[OF assms])
qed

lemma round_pos_overflow:
  assumes "pow2 1024 \<le> x"
  shows "round_pos x = PosInf"
proof -
  have "(1::rat) \<le> pow2 1024" by (simp add: pow2_def)
  with assms have x1: "1 \<le> x" by linarith
  then have x0: "0 < x" by simp
  from floor_log2_bounds(2)[OF x0] assms have "pow2 1024 < pow2 (floor_log2 x + 1)" by linarith
  then have "1024 \<le> floor_log2 x" using pow2_less_imp by fastforce
  then have "pow2 1024 \<le> pow2 (floor_log2 x)" by (rule pow2_mono)
  with round_pos_normal(2)[OF x1]
  have "pow2 1024 \<le> of_int (round_half_even (x / pow2 (floor_log2 x - 52))) * pow2 (floor_log2 x - 52)"
    by linarith
  then show ?thesis by (simp add: round_pos_normal(1)[OF x1])
qed

lemma round_pos_in_range:
  assumes "1 \<le> x" "x < pow2 1023"
  shows "\<exists>v. round_pos x = Finite v \<and> 1 \<le> v"
proof -
  have x0: "0 < x" using assms(1) by simp
  from floor_log2_bounds(1)[OF x0] assms(2) have "pow2 (floor_log2 x) < pow2 1023" by linarith
  then have "floor_log2 x + 1 \<le> 1023" using pow2_less_imp by fastforce
  then have "pow2 (floor_log2 x + 1) \<le> pow2 1023" by (rule pow2_mono)
  moreover have "pow2 1023 < pow2 1024"
    by (simp add: pow2_powi power_int_strict_increasing)
  ultimately have lt: "of_int (round_half_even (x / pow2 (floor_log2 x - 52))) * pow2 (floor_log2 x - 52)
      < pow2 1024"
    using round_pos_normal(3)[OF assms(1)] by linarith
  have "pow2 0 \<le> pow2 (floor_log2 x)"
    using round_pos_normal(4)[OF assms(1)] by (rule pow2_mono)
  then have "1 \<le> pow2 (floor_log2 x)" by (simp add: pow2_def)
  with round_pos_normal(2)[OF assms(1)]
  have "1 \<le> of_int (round_half_even (x / pow2 (floor_log2 x - 52))) * pow2 (floor_log2 x - 52)"
    by linarith
  with lt show ?thesis by (simp add: round_pos_normal(1)[OF assms(1)])
qed

lemma float_of_int_positive:
  assumes "0 < n"
  shows "float_of_int n = Inl OverflowError \<or> (\<exists>f. float_of_int n = Inr f \<and> float_gt_zero f)"
proof -
  have "(1::rat) \<le> of_int n" using assms by simp
  then have "float_gt_zero (round_pos (of_int n))" by (rule round_pos_gt_zero)
  moreover have "round_double (of_int n) = round_pos (of_int n)"
    using assms by (simp add: round_double_def)
  ultimately show ?thesis
    by (auto simp: float_of_int_def Let_def)
qed

lemma float_of_int_overflow:
  assumes "2 ^ 1024 \<le> n"
  shows "float_of_int n = Inl OverflowError"
proof -
  have "(of_int (2 ^ 1024) :: rat) \<le> of_int n" using assms by (simp only: of_int_le_iff)
  then have "pow2 1024 \<le> of_int n" by (simp add: pow2_def)
  then have "round_pos (of_int n) = PosInf" by (rule round_pos_overflow)
  moreover have "0 < n" using assms by (smt (verit) zero_less_power)
  ultimately show ?thesis by (simp add: float_of_int_def round_double_def)
qed

lemma float_of_int_in_range:
  assumes "0 < n" "n < 2 ^ 1023"
  shows "\<exists>f. float_of_int n = Inr f \<and> float_gt_zero f"
proof -
  have "(of_int n :: rat) < of_int (2 ^ 1023)" using assms(2) by (simp only: of_int_less_iff)
  then have "of_int n < pow2 1023" by (simp add: pow2_def)
  moreover have "(1::rat) \<le> of_int n" using assms(1) by simp
  ultimately obtain v where "round_pos (of_int n) = Finite v" "1 \<le> v"
    using round_pos_in_range by blast
  then show ?thesis using assms(1) by (simp add: float_of_int_def round_double_def)
qed

lemma float_of_int_one: "float_of_int 1 = Inr (Finite 1)"
  by code_simp

subsection \<open>Evaluation\<close>

lemma floor_rat_numeral_div:
  "\<lfloor>(numeral a :: rat) / numeral b\<rfloor> = numeral a div numeral b"
  using floor_divide_of_int_eq[of "numeral a" "numeral b", where ?'a = rat] by simp

lemma ceiling_rat_numeral_div:
  "\<lceil>(numeral a :: rat) / numeral b\<rceil> = - (- numeral a div numeral b)"
  using ceiling_divide_eq_div[of "numeral a" "numeral b", where ?'a = rat] by simp

lemma floor_rat_one_div:
  "\<lfloor>(1 :: rat) / numeral b\<rfloor> = 1 div numeral b"
  using floor_divide_of_int_eq[of 1 "numeral b", where ?'a = rat] by simp

lemma ceiling_rat_one_div:
  "\<lceil>(1 :: rat) / numeral b\<rceil> = - (- 1 div numeral b)"
  using ceiling_divide_eq_div[of 1 "numeral b", where ?'a = rat] by simp

lemmas float_eval =
  round_double_def round_pos_def floor_log2_def round_half_even_def Let_def pow2_def
  bit_length.simps floor_rat_numeral_div ceiling_rat_numeral_div floor_rat_one_div
  ceiling_rat_one_div float_of_int_def float_truediv_int_def

lemmas parse_eval =
  float_of_ascii_def strip_def is_space_def parse_decimal_def parse_exponent_def
  digits_val_def digit_val_def is_digit_def pow10_def ascii_lower_def ascii_lower_char_def

lemmas walk_eval =
  visit_item_def is_price_key_def ascii_lower_def ascii_lower_char_def yen_def
  extract_price_info_def py_sum_def

lemma float_of_ascii_1000: "float_of_ascii ''1000'' = Some (Finite 1000)"
  by (simp add: parse_eval float_eval)

lemma float_of_ascii_1234: "float_of_ascii ''1234'' = Some (Finite 1234)"
  by (simp add: parse_eval float_eval)

lemma float_of_ascii_abc: "float_of_ascii ''abc'' = None"
  by (simp add: parse_eval float_eval)

section \<open>Properties of the shape extractor\<close>

lemma probe_Some_iff:
  "probe keys d = Some xs \<longleftrightarrow>
     (\<exists>i<length keys. map_of d (keys ! i) = Some (JList xs) \<and>
        (\<forall>j<i. \<forall>ys. map_of d (keys ! j) \<noteq> Some (JList ys)))"
proof (induction keys)
  case Nil
  then show ?case by simp
next
  case (Cons k ks)
  show ?case
  proof (cases "\<exists>ys. map_of d k = Some (JList ys)")
    case True
    then obtain ys where ys: "map_of d k = Some (JList ys)" by blast
    have "probe (k # ks) d = Some ys" using ys by simp
    moreover have "(\<exists>i<length (k # ks). map_of d ((k # ks) ! i) = Some (JList xs) \<and>
        (\<forall>j<i. \<forall>ys. map_of d ((k # ks) ! j) \<noteq> Some (JList ys))) \<longleftrightarrow> xs = ys"
    proof
      assume "\<exists>i<length (k # ks). map_of d ((k # ks) ! i) = Some (JList xs) \<and>
        (\<forall>j<i. \<forall>ys. map_of d ((k # ks) ! j) \<noteq> Some (JList ys))"
      then obtain i where i: "i < length (k # ks)" "map_of d ((k # ks) ! i) = Some (JList xs)"
        "\<forall>j<i. \<forall>ys. map_of d ((k # ks) ! j) \<noteq> Some (JList ys)" by blast
      have "i = 0"
      proof (rule ccontr)
        assume "i \<noteq> 0"
        then have "0 < i" by simp
        with i(3) have "map_of d ((k # ks) ! 0) \<noteq> Some (JList ys)" by blast
        with ys show False by simp
      qed
      with i(2) ys show "xs = ys" by simp
    next
      assume "xs = ys"
      with ys have "map_of d ((k # ks) ! 0) = Some (JList xs)" by simp
      then show "\<exists>i<length (k # ks). map_of d ((k # ks) ! i) = Some (JList xs) \<and>
        (\<forall>j<i. \<forall>ys. map_of d ((k # ks) ! j) \<noteq> Some (JList ys))"
        by (intro exI[of _ 0]) simp
    qed
    ultimately show ?thesis by auto
  next
    case False
    then have step: "probe (k # ks) d = probe ks d"
      by (auto split: option.splits json.splits)
    have "(\<exists>i<length (k # ks). map_of d ((k # ks) ! i) = Some (JList xs) \<and>
        (\<forall>j<i. \<forall>ys. map_of d ((k # ks) ! j) \<noteq> Some (JList ys))) \<longleftrightarrow>
      (\<exists>i<length ks. map_of d (ks ! i) = Some (JList xs) \<and>
        (\<forall>j<i. \<forall>ys. map_of d (ks ! j) \<noteq> Some (JList ys)))" (is "?L \<longleftrightarrow> ?R")
    proof
      assume ?L
      then obtain i where i: "i < length (k # ks)" "map_of d ((k # ks) ! i) = Some (JList xs)"
        "\<forall>j<i. \<forall>ys. map_of d ((k # ks) ! j) \<noteq> Some (JList ys)" by blast
      from i(2) False have "i \<noteq> 0" by (cases i) auto
      then obtain i' where i': "i = Suc i'" by (cases i) auto
      have "\<forall>j<i'. \<forall>ys. map_of d (ks ! j) \<noteq> Some (JList ys)"
      proof (intro allI impI)
        fix j ys assume "j < i'"
        then have "Suc j < i" using i' by simp
        with i(3) have "map_of d ((k # ks) ! Suc j) \<noteq> Some (JList ys)" by blast
        then show "map_of d (ks ! j) \<noteq> Some (JList ys)" by simp
      qed
      with i i' show ?R by (intro exI[of _ i']) simp
    next
      assume ?R
      then obtain i where i: "i < length ks" "map_of d (ks ! i) = Some (JList xs)"
        "\<forall>j<i. \<forall>ys. map_of d (ks ! j) \<noteq> Some (JList ys)" by blast
      have "\<forall>j<Suc i. \<forall>ys. map_of d ((k # ks) ! j) \<noteq> Some (JList ys)"
      proof (intro allI impI)
        fix j ys assume "j < Suc i"
        show "map_of d ((k # ks) ! j) \<noteq> Some (JList ys)"
        proof (cases j)
          case 0 then show ?thesis using False by simp
        next
          case (Suc j') then show ?thesis using i(3) \<open>j < Suc i\<close> by simp
        qed
      qed
      with i show ?L by (intro exI[of _ "Suc i"]) simp
    qed
    with step Cons.IH show ?thesis by simp
  qed
qed

lemma probe_None_iff:
  "probe keys d = None \<longleftrightarrow> (\<forall>k\<in>set keys. \<forall>ys. map_of d k \<noteq> Some (JList ys))"
  by (induction keys) (auto split: option.splits json.splits)


text \<open>
  Claim C1. Whenever a mapping binds at least one of the candidate keys
  \<^verbatim>\<open>items, list, data, results, cards, products\<close> to a sequence, the extractor returns
  exactly the sequence bound to the first such key in that probe order: earlier candidate
  keys are not bound to a sequence, and neither the order of the mapping's items nor the
  lengths of the sequences play a part.
\<close>

theorem extract_cards_first_candidate:
  assumes "\<exists>k\<in>set candidate_keys. \<exists>ys. map_of d k = Some (JList ys)"
  shows "\<exists>i<length candidate_keys.
           map_of d (candidate_keys ! i) = Some (JList (extract_cards_from_response (JDict d))) \<and>
           (\<forall>j<i. \<forall>ys. map_of d (candidate_keys ! j) \<noteq> Some (JList ys))"
proof -
  from assms have "probe candidate_keys d \<noteq> None"
    by (simp add: probe_None_iff)
  then obtain xs where xs: "probe candidate_keys d = Some xs" by blast
  then have "extract_cards_from_response (JDict d) = xs" by simp
  with xs show ?thesis by (simp add: probe_Some_iff)
qed

theorem extract_cards_first_candidate_witness:
  "extract_cards_from_response
     (JDict [(''products'', JList [JInt 1, JInt 2, JInt 3]), (''data'', JList [JInt 1]),
             (''items'', JList [])]) = [] \<and>
   (\<exists>i<length candidate_keys.
      map_of [(''products'', JList [JInt 1, JInt 2, JInt 3]), (''data'', JList [JInt 1]),
              (''items'', JList [])] (candidate_keys ! i) = Some (JList []) \<and>
      (\<forall>j<i. \<forall>ys. map_of [(''products'', JList [JInt 1, JInt 2, JInt 3]),
              (''data'', JList [JInt 1]), (''items'', JList [])] (candidate_keys ! j)
              \<noteq> Some (JList ys)))"
proof -
  let ?d = "[(''products'', JList [JInt 1, JInt 2, JInt 3]), (''data'', JList [JInt 1]),
             (''items'', JList [])]"
  have r: "extract_cards_from_response (JDict ?d) = []"
    by (simp add: candidate_keys_def)
  have h: "\<exists>k\<in>set candidate_keys. \<exists>ys. map_of ?d k = Some (JList ys)"
    by (simp add: candidate_keys_def)
  from extract_cards_first_candidate [OF h] r show ?thesis by simp
qed

text \<open>
  Claim C2. Let the top-level probe find no candidate key bound to a sequence. If the value is
  a mapping whose key \<^verbatim>\<open>data\<close> is bound to a mapping, the first of
  \<^verbatim>\<open>items, list, results, cards\<close> bound to a sequence there decides the result; in every
  other case (no such nested key, no nested mapping, or an input that is no mapping at all) the
  result is the empty sequence.
\<close>

theorem extract_cards_nested_probe:
  assumes "\<forall>d. v = JDict d \<longrightarrow>
             (\<forall>k\<in>set candidate_keys. \<forall>ys. map_of d k \<noteq> Some (JList ys))"
  shows "(\<forall>d dd i xs.
            v = JDict d \<and> map_of d ''data'' = Some (JDict dd) \<and>
            i < length nested_keys \<and> map_of dd (nested_keys ! i) = Some (JList xs) \<and>
            (\<forall>j<i. \<forall>ys. map_of dd (nested_keys ! j) \<noteq> Some (JList ys))
            \<longrightarrow> extract_cards_from_response v = xs) \<and>
         ((\<forall>d dd. v = JDict d \<and> map_of d ''data'' = Some (JDict dd)
             \<longrightarrow> (\<forall>k\<in>set nested_keys. \<forall>ys. map_of dd k \<noteq> Some (JList ys)))
            \<longrightarrow> extract_cards_from_response v = [])"
proof (intro conjI allI impI)
  fix d dd i xs
  assume a: "v = JDict d \<and> map_of d ''data'' = Some (JDict dd) \<and>
            i < length nested_keys \<and> map_of dd (nested_keys ! i) = Some (JList xs) \<and>
            (\<forall>j<i. \<forall>ys. map_of dd (nested_keys ! j) \<noteq> Some (JList ys))"
  with assms have top: "probe candidate_keys d = None"
    by (simp add: probe_None_iff)
  from a have "probe nested_keys dd = Some xs"
    unfolding probe_Some_iff by blast
  with top a show "extract_cards_from_response v = xs" by simp
next
  assume b: "\<forall>d dd. v = JDict d \<and> map_of d ''data'' = Some (JDict dd)
             \<longrightarrow> (\<forall>k\<in>set nested_keys. \<forall>ys. map_of dd k \<noteq> Some (JList ys))"
  show "extract_cards_from_response v = []"
  proof (cases v)
    case (JDict d)
    with assms have top: "probe candidate_keys d = None"
      by (simp add: probe_None_iff)
    show ?thesis
    proof (cases "\<exists>dd. map_of d ''data'' = Some (JDict dd)")
      case True
      then obtain dd where dd: "map_of d ''data'' = Some (JDict dd)" by blast
      with b JDict have "probe nested_keys dd = None"
        by (simp add: probe_None_iff)
      with top dd JDict show ?thesis by simp
    next
      case False
      with top JDict show ?thesis
        by (auto split: option.splits json.splits)
    qed
  qed simp_all
qed

theorem extract_cards_nested_probe_witness:
  "extract_cards_from_response
     (JDict [(''total'', JInt 2),
             (''data'', JDict [(''cards'', JList [JInt 2]), (''list'', JList [JInt 1])])])
     = [JInt 1] \<and>
   extract_cards_from_response (JDict [(''data'', JDict [(''items'', JInt 3)])]) = [] \<and>
   extract_cards_from_response (JDict [(''items'', JStr ''x'')]) = [] \<and>
   extract_cards_from_response JNull = [] \<and>
   extract_cards_from_response (JList [JList []]) = []"
proof -
  let ?v1 = "JDict [(''total'', JInt 2),
             (''data'', JDict [(''cards'', JList [JInt 2]), (''list'', JList [JInt 1])])]"
  have h1: "\<forall>d. ?v1 = JDict d \<longrightarrow>
             (\<forall>k\<in>set candidate_keys. \<forall>ys. map_of d k \<noteq> Some (JList ys))"
    by (simp add: candidate_keys_def)
  have p1: "?v1 = JDict [(''total'', JInt 2),
             (''data'', JDict [(''cards'', JList [JInt 2]), (''list'', JList [JInt 1])])] \<and>
       map_of [(''total'', JInt 2),
             (''data'', JDict [(''cards'', JList [JInt 2]), (''list'', JList [JInt 1])])] ''data''
         = Some (JDict [(''cards'', JList [JInt 2]), (''list'', JList [JInt 1])]) \<and>
       1 < length nested_keys \<and>
       map_of [(''cards'', JList [JInt 2]), (''list'', JList [JInt 1])] (nested_keys ! 1)
         = Some (JList [JInt 1]) \<and>
       (\<forall>j<1. \<forall>ys. map_of [(''cards'', JList [JInt 2]), (''list'', JList [JInt 1])]
          (nested_keys ! j) \<noteq> Some (JList ys))"
    by (simp add: nested_keys_def)
  have r1: "extract_cards_from_response ?v1 = [JInt 1]"
    using extract_cards_nested_probe [OF h1] p1 by blast
  have r2: "extract_cards_from_response (JDict [(''data'', JDict [(''items'', JInt 3)])]) = []"
    using extract_cards_nested_probe [of "JDict [(''data'', JDict [(''items'', JInt 3)])]"]
    by (simp add: candidate_keys_def nested_keys_def)
  have r3: "extract_cards_from_response (JDict [(''items'', JStr ''x'')]) = []"
    using extract_cards_nested_probe [of "JDict [(''items'', JStr ''x'')]"]
    by (simp add: candidate_keys_def nested_keys_def)
  have r4: "extract_cards_from_response JNull = []"
    using extract_cards_nested_probe [of JNull] by simp
  have r5: "extract_cards_from_response (JList [JList []]) = []"
    using extract_cards_nested_probe [of "JList [JList []]"] by simp
  from r1 r2 r3 r4 r5 show ?thesis by simp
qed

section \<open>Properties of the card id extractor\<close>

lemma probe_fields_dict_present:
  assumes "i < length fls" "map_of d (fls ! i) = Some v"
    "\<forall>j<i. map_of d (fls ! j) = None"
  shows "probe_fields repr fls (JDict d) = Inr (Some (py_str repr v))"
  using assms
proof (induction fls arbitrary: i)
  case Nil
  then show ?case by simp
next
  case (Cons f fs)
  show ?case
  proof (cases i)
    case 0
    with Cons.prems show ?thesis by simp
  next
    case (Suc i')
    with Cons.prems have "map_of d ((f # fs) ! 0) = None" by blast
    then have f: "map_of d f = None" by simp
    have "\<forall>j<i'. map_of d (fs ! j) = None"
    proof (intro allI impI)
      fix j assume "j < i'"
      then have "Suc j < i" using Suc by simp
      with Cons.prems(3) have "map_of d ((f # fs) ! Suc j) = None" by blast
      then show "map_of d (fs ! j) = None" by simp
    qed
    with Cons.prems Suc have "probe_fields repr fs (JDict d) = Inr (Some (py_str repr v))"
      by (intro Cons.IH[of i']) simp_all
    with f show ?thesis by simp
  qed
qed


lemma probe_fields_dict_cases:
  "(\<exists>v. probe_fields repr fls (JDict d) = Inr (Some (py_str repr v)) \<and>
        (\<exists>f\<in>set fls. map_of d f = Some v)) \<or>
   (probe_fields repr fls (JDict d) = Inr None \<and> (\<forall>f\<in>set fls. map_of d f = None))"
proof (induction fls)
  case Nil
  then show ?case by simp
next
  case (Cons f fs)
  show ?case
  proof (cases "map_of d f")
    case None
    with Cons.IH show ?thesis by auto
  next
    case (Some v)
    then show ?thesis by auto
  qed
qed



text \<open>
  Claim C10. Presence of the key decides, not its value: when the first present candidate
  field is bound to JSON null the result is the string \<^verbatim>\<open>"None"\<close>, and the result is
  \<^verbatim>\<open>None\<close> exactly when none of the five keys is in the mapping.
\<close>

theorem extract_card_id_null_value:
  "(\<forall>i. i < length id_fields \<and> map_of d (id_fields ! i) = Some JNull \<and>
         (\<forall>j<i. map_of d (id_fields ! j) = None)
      \<longrightarrow> extract_card_id repr (JDict d) = Inr (Some ''None'')) \<and>
   (extract_card_id repr (JDict d) = Inr None \<longleftrightarrow> (\<forall>f\<in>set id_fields. map_of d f = None))"
proof (intro conjI allI impI)
  fix i
  assume "i < length id_fields \<and> map_of d (id_fields ! i) = Some JNull \<and>
         (\<forall>j<i. map_of d (id_fields ! j) = None)"
  then have "probe_fields repr id_fields (JDict d) = Inr (Some (py_str repr JNull))"
    by (intro probe_fields_dict_present[of i]) simp_all
  then show "extract_card_id repr (JDict d) = Inr (Some ''None'')"
    by (simp add: extract_card_id_def)
next
  show "extract_card_id repr (JDict d) = Inr None \<longleftrightarrow> (\<forall>f\<in>set id_fields. map_of d f = None)"
    using probe_fields_dict_cases [of repr id_fields d]
    by (auto simp: extract_card_id_def)
qed

theorem extract_card_id_null_value_witness:
  "(\<forall>repr. extract_card_id repr (JDict [(''cardId'', JNull), (''productId'', JInt 9)])
       = Inr (Some ''None'')) \<and>
   (\<forall>repr. extract_card_id repr (JDict [(''name'', JNull)]) = Inr None)"
proof (intro conjI allI)
  fix repr :: "json \<Rightarrow> string"
  let ?d = "[(''cardId'', JNull), (''productId'', JInt 9)]"
  have "1 < length id_fields \<and> map_of ?d (id_fields ! 1) = Some JNull \<and>
        (\<forall>j<1. map_of ?d (id_fields ! j) = None)"
    by (simp add: id_fields_def)
  with extract_card_id_null_value [of ?d repr]
  show "extract_card_id repr (JDict ?d) = Inr (Some ''None'')" by blast
next
  fix repr :: "json \<Rightarrow> string"
  let ?d = "[(''name'', JNull)]"
  have "\<forall>f\<in>set id_fields. map_of ?d f = None"
    by (simp add: id_fields_def)
  with extract_card_id_null_value [of ?d repr]
  show "extract_card_id repr (JDict ?d) = Inr None" by blast
qed

section \<open>The walk on integers within the range of the doubles\<close>

lemma visit_item_in_range:
  assumes "ints_in_float_range (snd item)"
  shows "\<exists>prices'. visit_item lower pfloat item prices = Inr prices'"
proof (cases item)
  case (Pair key v)
  show ?thesis
  proof (cases "is_price_key lower key \<and> is_int_or_float v \<and> number_gt_zero v")
    case True
    then have "\<exists>f. py_float v = Inr f"
    proof (cases v)
      case (JInt n)
      with True assms Pair have "0 < n" "n < 2 ^ 1023" by simp_all
      from float_of_int_in_range[OF this] JInt show ?thesis by auto
    next
      case (JBool b)
      with True show ?thesis by (simp add: float_of_int_one split: if_splits)
    qed simp_all
    with True Pair show ?thesis by (auto simp: visit_item_def)
  next
    case False
    with Pair show ?thesis
      by (auto simp: visit_item_def split: json.splits option.splits)
  qed
qed

lemma visit_items_in_range:
  assumes "\<forall>item\<in>set d. ints_in_float_range (snd item)"
  shows "\<exists>prices'. visit_items lower pfloat d prices = Inr prices'"
  using assms
proof (induction d arbitrary: prices)
  case Nil
  then show ?case by simp
next
  case (Cons item d)
  then have "ints_in_float_range (snd item)" by simp
  from visit_item_in_range[OF this] obtain mid
    where mid: "visit_item lower pfloat item prices = Inr mid" by blast
  from Cons have "\<exists>prices'. visit_items lower pfloat d mid = Inr prices'" by simp
  with mid show ?case by simp
qed

lemma walk_in_range:
  "ints_in_float_range v \<Longrightarrow> \<exists>prices'. walk lower pfloat v prices = Inr prices'"
  "\<forall>item\<in>set d. ints_in_float_range (snd item)
     \<Longrightarrow> \<exists>prices'. walk_values lower pfloat d prices = Inr prices'"
  "\<forall>x\<in>set xs. ints_in_float_range x \<Longrightarrow> \<exists>prices'. walk_list lower pfloat xs prices = Inr prices'"
proof (induction lower pfloat v prices and lower pfloat d prices and lower pfloat xs prices
    rule: walk_walk_values_walk_list.induct)
  case (1 lower pfloat d prices)
  then have r: "\<forall>item\<in>set d. ints_in_float_range (snd item)" by simp
  from visit_items_in_range[OF r] obtain mid
    where mid: "visit_items lower pfloat d prices = Inr mid" by blast
  from "1.IH"[OF mid r] mid show ?case by simp
next
  case (2 lower pfloat xs prices)
  then show ?case by simp
next
  case (9 lower pfloat item items prices)
  then have "ints_in_float_range (snd item)" by simp
  from "9.IH"(1)[OF this] obtain mid
    where mid: "walk lower pfloat (snd item) prices = Inr mid" by blast
  from "9.prems" have "\<forall>item\<in>set items. ints_in_float_range (snd item)" by simp
  from "9.IH"(2)[OF mid this] mid show ?case by simp
next
  case (11 lower pfloat x xs prices)
  then have "ints_in_float_range x" by simp
  from "11.IH"(1)[OF this] obtain mid
    where mid: "walk lower pfloat x prices = Inr mid" by blast
  from "11.prems" have "\<forall>x\<in>set xs. ints_in_float_range x" by simp
  from "11.IH"(2)[OF mid this] mid show ?case by simp
qed simp_all

section \<open>The walk within the recursion limit\<close>

lemma walk_within_enough:
  "frames_needed v \<le> n \<Longrightarrow> walk_within lower pfloat n v prices = walk lower pfloat v prices"
  "frames_needed_values d \<le> n
     \<Longrightarrow> walk_values_within lower pfloat n d prices = walk_values lower pfloat d prices"
  "frames_needed_list xs \<le> n
     \<Longrightarrow> walk_list_within lower pfloat n xs prices = walk_list lower pfloat xs prices"
proof (induction lower pfloat n v prices and lower pfloat n d prices and lower pfloat n xs prices
    rule: walk_within_walk_values_within_walk_list_within.induct)
  case (1 lower pfloat obj prices)
  then show ?case by (cases obj) simp_all
next
  case (2 lower pfloat n d prices)
  from "2.prems" have c: "\<not> (n < 1 \<or> (d \<noteq> [] \<and> n < 2))" and v: "frames_needed_values d \<le> n"
    by (auto split: if_splits)
  show ?case
  proof (cases "visit_items lower pfloat d prices")
    case (Inl e)
    with c show ?thesis by auto
  next
    case (Inr mid)
    from "2.IH"[OF c Inr v] Inr c show ?thesis by auto
  qed
next
  case (3 lower pfloat n xs prices)
  then show ?case by simp
next
  case (10 lower pfloat n item items prices)
  from "10.prems" have a: "frames_needed (snd item) \<le> n" and b: "frames_needed_values items \<le> n"
    by simp_all
  have e1: "walk_within lower pfloat n (snd item) prices = walk lower pfloat (snd item) prices"
    by (rule "10.IH"(1)[OF a])
  show ?case
  proof (cases "walk lower pfloat (snd item) prices")
    case (Inl e)
    with e1 show ?thesis by simp
  next
    case (Inr mid)
    with e1 have w: "walk_within lower pfloat n (snd item) prices = Inr mid" by simp
    from "10.IH"(2)[OF w b] w Inr show ?thesis by simp
  qed
next
  case (12 lower pfloat n x xs prices)
  from "12.prems" have a: "frames_needed x \<le> n" and b: "frames_needed_list xs \<le> n"
    by simp_all
  have e1: "walk_within lower pfloat n x prices = walk lower pfloat x prices"
    by (rule "12.IH"(1)[OF a])
  show ?case
  proof (cases "walk lower pfloat x prices")
    case (Inl e)
    with e1 show ?thesis by simp
  next
    case (Inr mid)
    with e1 have w: "walk_within lower pfloat n x prices = Inr mid" by simp
    from "12.IH"(2)[OF w b] w Inr show ?thesis by simp
  qed
qed simp_all

lemma walk_within_returns:
  "walk_within lower pfloat n v prices = Inr prices'
     \<Longrightarrow> walk lower pfloat v prices = Inr prices'"
  "walk_values_within lower pfloat n d prices = Inr prices'
     \<Longrightarrow> walk_values lower pfloat d prices = Inr prices'"
  "walk_list_within lower pfloat n xs prices = Inr prices'
     \<Longrightarrow> walk_list lower pfloat xs prices = Inr prices'"
proof (induction lower pfloat n v prices and lower pfloat n d prices and lower pfloat n xs prices
    arbitrary: prices' and prices' and prices'
    rule: walk_within_walk_values_within_walk_list_within.induct)
  case (2 lower pfloat n d prices)
  from "2.prems" have c: "\<not> (n < 1 \<or> (d \<noteq> [] \<and> n < 2))"
    by (auto split: if_splits)
  with "2.prems" obtain mid where mid: "visit_items lower pfloat d prices = Inr mid"
    and rest: "walk_values_within lower pfloat n d mid = Inr prices'"
    by (auto split: sum.splits)
  from "2.IH"[OF c mid rest] mid show ?case by simp
next
  case (10 lower pfloat n item items prices)
  from "10.prems" obtain mid where mid: "walk_within lower pfloat n (snd item) prices = Inr mid"
    and rest: "walk_values_within lower pfloat n items mid = Inr prices'"
    by (auto split: sum.splits)
  from "10.IH"(1)[OF mid] "10.IH"(2)[OF mid rest] show ?case by simp
next
  case (12 lower pfloat n x xs prices)
  from "12.prems" obtain mid where mid: "walk_within lower pfloat n x prices = Inr mid"
    and rest: "walk_list_within lower pfloat n xs mid = Inr prices'"
    by (auto split: sum.splits)
  from "12.IH"(1)[OF mid] "12.IH"(2)[OF mid rest] show ?case by simp
qed simp_all


lemma frames_needed_nested_lists:
  "frames_needed (nested_lists n v) = n + frames_needed v"
  by (induction n) simp_all

section \<open>Properties of the price walker\<close>

lemma py_float_positive:
  assumes "is_int_or_float v" "number_gt_zero v"
  shows "py_float v = Inl OverflowError \<or> (\<exists>f. py_float v = Inr f \<and> float_gt_zero f)"
proof (cases v)
  case (JBool b)
  with assms(2) have "b" by (simp split: if_splits)
  with JBool show ?thesis by (simp add: float_of_int_one)
next
  case (JInt n)
  with assms(2) have "0 < n" by simp
  with JInt show ?thesis using float_of_int_positive[of n] by simp
next
  case (JFloat x)
  with assms(2) show ?thesis by simp
qed (use assms in simp_all)

lemma visit_item_cases:
  "visit_item lower pfloat item prices = Inl OverflowError \<or>
   visit_item lower pfloat item prices = Inr prices \<or>
   (\<exists>f. visit_item lower pfloat item prices = Inr (prices @ [f]) \<and> float_gt_zero f)"
proof (cases item)
  case (Pair key v)
  show ?thesis
  proof (cases "is_price_key lower key")
    case False
    with Pair show ?thesis by (simp add: visit_item_def)
  next
    case True
    show ?thesis
    proof (cases "is_int_or_float v \<and> number_gt_zero v")
      case num: True
      with py_float_positive[of v] show ?thesis
        using True Pair by (auto simp: visit_item_def)
    next
      case False
      with True Pair show ?thesis
        by (auto simp: visit_item_def split: json.splits option.splits)
    qed
  qed
qed

lemma visit_items_cases:
  "visit_items lower pfloat items prices = Inl OverflowError \<or>
   (\<exists>new. visit_items lower pfloat items prices = Inr (prices @ new) \<and>
      (\<forall>x\<in>set new. float_gt_zero x))"
proof (induction items arbitrary: prices)
  case Nil
  then show ?case by simp
next
  case (Cons item items)
  from visit_item_cases[of lower pfloat item prices]
  consider "visit_item lower pfloat item prices = Inl OverflowError"
    | "visit_item lower pfloat item prices = Inr prices"
    | f where "visit_item lower pfloat item prices = Inr (prices @ [f])" "float_gt_zero f"
    by blast
  then show ?case
  proof cases
    case 1
    then show ?thesis by simp
  next
    case 2
    with Cons.IH[of prices] show ?thesis by auto
  next
    case (3 f)
    from Cons.IH[of "prices @ [f]"] show ?thesis
    proof
      assume "visit_items lower pfloat items (prices @ [f]) = Inl OverflowError"
      with 3 show ?thesis by simp
    next
      assume "\<exists>new. visit_items lower pfloat items (prices @ [f]) = Inr ((prices @ [f]) @ new) \<and>
        (\<forall>x\<in>set new. float_gt_zero x)"
      then obtain new where
        n: "visit_items lower pfloat items (prices @ [f]) = Inr ((prices @ [f]) @ new)"
        "\<forall>x\<in>set new. float_gt_zero x" by blast
      have "visit_items lower pfloat (item # items) prices = Inr (prices @ (f # new))"
        using 3 n by simp
      moreover have "\<forall>x\<in>set (f # new). float_gt_zero x" using 3 n by simp
      ultimately show ?thesis by blast
    qed
  qed
qed

lemma appends_positive_step:
  assumes "appends_positive prices r"
    and "\<And>prices'. r = Inr prices' \<Longrightarrow> appends_positive prices' (k prices')"
  shows "appends_positive prices (case r of Inl e \<Rightarrow> Inl e | Inr prices' \<Rightarrow> k prices')"
proof -
  from assms(1) consider "r = Inl OverflowError"
    | new where "r = Inr (prices @ new)" "\<forall>x\<in>set new. float_gt_zero x"
    unfolding appends_positive_def by blast
  then show ?thesis
  proof cases
    case 1
    then show ?thesis by (simp add: appends_positive_def)
  next
    case (2 new)
    from assms(2)[OF 2(1)] consider "k (prices @ new) = Inl OverflowError"
      | new' where "k (prices @ new) = Inr ((prices @ new) @ new')" "\<forall>x\<in>set new'. float_gt_zero x"
      unfolding appends_positive_def by blast
    then show ?thesis
    proof cases
      case 1
      with 2 show ?thesis by (simp add: appends_positive_def)
    next
      case inner: (2 new')
      have "\<forall>x\<in>set (new @ new'). float_gt_zero x" using 2 inner by auto
      moreover have "(case r of Inl e \<Rightarrow> Inl e | Inr prices' \<Rightarrow> k prices') = Inr (prices @ (new @ new'))"
        using 2 inner by simp
      ultimately show ?thesis unfolding appends_positive_def by blast
    qed
  qed
qed

lemma appends_positive_refl: "appends_positive prices (Inr prices)"
  unfolding appends_positive_def by (intro disjI2 exI[of _ "[]"]) simp

lemma walk_appends_positive:
  "appends_positive prices (walk lower pfloat v prices)"
  "appends_positive prices (walk_values lower pfloat d prices)"
  "appends_positive prices (walk_list lower pfloat xs prices)"
proof (induction lower pfloat v prices and lower pfloat d prices and lower pfloat xs prices
    rule: walk_walk_values_walk_list.induct)
  case (1 lower pfloat d prices)
  have "appends_positive prices (visit_items lower pfloat d prices)"
    using visit_items_cases[of lower pfloat d prices] by (simp add: appends_positive_def)
  then show ?case
    unfolding walk.simps by (rule appends_positive_step) (rule "1.IH")
next
  case (9 lower pfloat item items prices)
  show ?case
    unfolding walk_values.simps
    by (rule appends_positive_step, rule "9.IH"(1), rule "9.IH"(2))
next
  case (11 lower pfloat x xs prices)
  show ?case
    unfolding walk_list.simps
    by (rule appends_positive_step, rule "11.IH"(1), rule "11.IH"(2))
qed (simp_all add: appends_positive_refl)

lemma extract_price_info_all_prices:
  assumes "extract_price_info lower pfloat psum data = Inr r"
  shows "walk lower pfloat data [] = Inr (all_prices r)"
  using assms
  by (auto simp: extract_price_info_def split: sum.splits if_splits)

lemma walk_result_positive:
  assumes "walk lower pfloat v [] = Inr prices"
  shows "\<forall>x\<in>set prices. float_gt_zero x"
  using walk_appends_positive(1)[of "[]" lower pfloat v] assms
  by (auto simp: appends_positive_def)

lemma visit_item_not_positive_number:
  assumes "is_int_or_float v" "\<not> number_gt_zero v"
  shows "visit_item lower pfloat (key, v) prices = Inr prices"
  using assms by (cases v) (simp_all add: visit_item_def)

text \<open>
  Claim C3. Every element of \<^verbatim>\<open>all_prices\<close> in a returned summary is strictly positive.
  Under a matching key a number that is not greater than zero is not recorded, nor is a
  string that coerces to a double that is not greater than zero, and whatever one item
  appends is greater than zero.
\<close>

theorem all_prices_strictly_positive:
  "(\<forall>r. extract_price_info lower pfloat psum data = Inr r
        \<longrightarrow> (\<forall>x\<in>set (all_prices r). float_gt_zero x)) \<and>
   (\<forall>key v prices. is_price_key lower key \<and> is_int_or_float v \<and> \<not> number_gt_zero v
        \<longrightarrow> visit_item lower pfloat (key, v) prices = Inr prices) \<and>
   (\<forall>key s x prices.
        pfloat (py_remove ''$'' (py_remove yen (py_remove '','' s))) = Some x \<and>
        \<not> float_gt_zero x
        \<longrightarrow> visit_item lower pfloat (key, JStr s) prices = Inr prices) \<and>
   (\<forall>item prices f. visit_item lower pfloat item prices = Inr (prices @ [f])
        \<longrightarrow> float_gt_zero f)"
proof (intro conjI allI impI)
  fix r assume "extract_price_info lower pfloat psum data = Inr r"
  then have "walk lower pfloat data [] = Inr (all_prices r)"
    by (rule extract_price_info_all_prices)
  then show "\<forall>x\<in>set (all_prices r). float_gt_zero x"
    by (rule walk_result_positive)
next
  fix key v prices
  assume "is_price_key lower key \<and> is_int_or_float v \<and> \<not> number_gt_zero v"
  then show "visit_item lower pfloat (key, v) prices = Inr prices"
    by (simp add: visit_item_not_positive_number)
next
  fix key s x prices
  assume "pfloat (py_remove ''$'' (py_remove yen (py_remove '','' s))) = Some x \<and>
        \<not> float_gt_zero x"
  then show "visit_item lower pfloat (key, JStr s) prices = Inr prices"
    by (simp add: visit_item_def)
next
  fix item prices f
  assume a: "visit_item lower pfloat item prices = Inr (prices @ [f])"
  from visit_item_cases[of lower pfloat item prices] a show "float_gt_zero f"
    by auto
qed

lemma float_of_ascii_12: "float_of_ascii ''12'' = Some (Finite 12)"
  by (simp add: parse_eval float_eval)

lemma float_of_ascii_minus_3: "float_of_ascii ''-3'' = Some (Finite (- 3))"
  by (simp add: parse_eval float_eval)

lemma float_of_ascii_0: "float_of_ascii ''0'' = Some (Finite 0)"
  by (simp add: parse_eval float_eval)

theorem all_prices_strictly_positive_witness:
  "extract_price_info ascii_lower float_of_ascii py_sum zero_and_negative_example =
     Inr \<lparr>lowest_price = Some (Finite (5 / 2)), highest_price = Some (Finite 12),
          average_price = Some (Finite (29 / 4)), all_prices = [Finite (5 / 2), Finite 12]\<rparr> \<and>
   float_gt_zero (Finite (5 / 2)) \<and> float_gt_zero (Finite 12) \<and>
   visit_item ascii_lower float_of_ascii (''price'', JInt 0) [] = Inr [] \<and>
   visit_item ascii_lower float_of_ascii (''maxPrice'', JStr ''0'') [] = Inr []"
proof -
  have r: "extract_price_info ascii_lower float_of_ascii py_sum zero_and_negative_example =
     Inr \<lparr>lowest_price = Some (Finite (5 / 2)), highest_price = Some (Finite 12),
          average_price = Some (Finite (29 / 4)), all_prices = [Finite (5 / 2), Finite 12]\<rparr>"
    by (simp add: zero_and_negative_example_def walk_eval float_of_ascii_12 float_of_ascii_minus_3 float_of_ascii_0 float_eval)
  have k: "is_price_key ascii_lower ''price''" "is_price_key ascii_lower ''maxPrice''"
    by (simp_all add: walk_eval)
  have z: "float_of_ascii (py_remove ''$'' (py_remove yen (py_remove '','' ''0''))) = Some (Finite 0)"
    by (simp add: yen_def float_of_ascii_0)
  note t = all_prices_strictly_positive
    [of ascii_lower float_of_ascii py_sum zero_and_negative_example]
  from t r have "\<forall>x\<in>set [Finite (5 / 2), Finite 12]. float_gt_zero x" by fastforce
  moreover from t k have "visit_item ascii_lower float_of_ascii (''price'', JInt 0) [] = Inr []"
    by simp
  moreover from t z have "visit_item ascii_lower float_of_ascii (''maxPrice'', JStr ''0'') [] = Inr []"
    by (metis float_gt_zero.simps(1) less_irrefl)
  ultimately show ?thesis using r by simp
qed

lemma visit_items_keeps:
  assumes "visit_items lower pfloat d prices = Inr prices'"
  shows "set prices \<subseteq> set prices'"
  using visit_items_cases[of lower pfloat d prices] assms by auto

lemma walk_values_keeps:
  assumes "walk_values lower pfloat d prices = Inr prices'"
  shows "set prices \<subseteq> set prices'"
  using walk_appends_positive(2)[of prices lower pfloat d] assms
  by (auto simp: appends_positive_def)

lemma visit_item_true:
  assumes "is_price_key lower key"
  shows "visit_item lower pfloat (key, JBool True) prices = Inr (prices @ [Finite 1])"
  using assms by (simp add: visit_item_def float_of_int_one)

lemma visit_item_false:
  "visit_item lower pfloat (key, JBool False) prices = Inr prices"
  by (simp add: visit_item_def)

lemma visit_items_true:
  assumes "(key, JBool True) \<in> set d" "is_price_key lower key"
    "visit_items lower pfloat d prices = Inr prices'"
  shows "Finite 1 \<in> set prices'"
  using assms
proof (induction d arbitrary: prices)
  case Nil
  then show ?case by simp
next
  case (Cons item d)
  from Cons.prems(3) obtain mid where
    mid: "visit_item lower pfloat item prices = Inr mid"
    and rest: "visit_items lower pfloat d mid = Inr prices'"
    by (auto split: sum.splits)
  show ?case
  proof (cases "item = (key, JBool True)")
    case True
    with mid Cons.prems(2) have "mid = prices @ [Finite 1]"
      by (simp add: visit_item_true)
    with visit_items_keeps[OF rest] show ?thesis by auto
  next
    case False
    with Cons.prems(1) have "(key, JBool True) \<in> set d" by simp
    from Cons.IH[OF this Cons.prems(2) rest] show ?thesis .
  qed
qed

lemma walk_errors:
  "walk lower pfloat v prices = Inl e \<Longrightarrow> e = OverflowError"
  using walk_appends_positive(1)[of prices lower pfloat v]
  by (auto simp: appends_positive_def)

text \<open>
  Claim C9, as the code has it. A JSON \<^verbatim>\<open>true\<close> under a matching key is treated as the
  number 1: the item appends \<^verbatim>\<open>1.0\<close>, and a JSON \<^verbatim>\<open>false\<close> is never recorded. Every walk
  of a mapping with such an item that completes has \<^verbatim>\<open>1.0\<close> among its prices. The walk
  completes when the integers of the value are below \<open>2 ^ 1023\<close> and the recursion limit
  leaves the frames that the nesting of the value needs.
\<close>

theorem boolean_price_recorded:
  assumes "(key, JBool True) \<in> set d" and "is_price_key lower key"
  shows "(\<forall>prices. visit_item lower pfloat (key, JBool True) prices = Inr (prices @ [Finite 1])) \<and>
         (\<forall>k prices. visit_item lower pfloat (k, JBool False) prices = Inr prices) \<and>
         (\<forall>n prices prices'. walk_within lower pfloat n (JDict d) prices = Inr prices'
            \<longrightarrow> Finite 1 \<in> set prices') \<and>
         (\<forall>n prices. ints_in_float_range (JDict d) \<and> frames_needed (JDict d) \<le> n
            \<longrightarrow> (\<exists>prices'. walk_within lower pfloat n (JDict d) prices = Inr prices' \<and>
                   Finite 1 \<in> set prices')) \<and>
         (\<forall>r. extract_price_info lower pfloat psum (JDict d) = Inr r
            \<longrightarrow> Finite 1 \<in> set (all_prices r))"
proof -
  have w: "Finite 1 \<in> set prices'" if "walk lower pfloat (JDict d) prices = Inr prices'"
    for prices prices'
  proof -
    from that obtain mid where
      mid: "visit_items lower pfloat d prices = Inr mid"
      and rest: "walk_values lower pfloat d mid = Inr prices'"
      by (auto split: sum.splits)
    from visit_items_true[OF assms mid] walk_values_keeps[OF rest] show ?thesis by auto
  qed
  have b: "Finite 1 \<in> set prices'"
    if "walk_within lower pfloat n (JDict d) prices = Inr prices'" for n prices prices'
    using w[OF walk_within_returns(1)[OF that]] .
  have t: "\<exists>prices'. walk_within lower pfloat n (JDict d) prices = Inr prices' \<and>
                   Finite 1 \<in> set prices'"
    if "ints_in_float_range (JDict d) \<and> frames_needed (JDict d) \<le> n" for n prices
  proof -
    from that walk_in_range(1)[of "JDict d" lower pfloat prices] obtain prices'
      where "walk lower pfloat (JDict d) prices = Inr prices'" by blast
    moreover from that have "walk_within lower pfloat n (JDict d) prices
        = walk lower pfloat (JDict d) prices"
      by (intro walk_within_enough(1)) simp
    ultimately show ?thesis using b by auto
  qed
  have "Finite 1 \<in> set (all_prices r)"
    if "extract_price_info lower pfloat psum (JDict d) = Inr r" for r
    using w[OF extract_price_info_all_prices[OF that]] .
  with b t show ?thesis
    using assms(2) by (simp add: visit_item_true visit_item_false)
qed

text \<open>
  The theorem at a mapping of three booleans, of which only \<^verbatim>\<open>hasValue\<close> is under a
  matching key and true; the walk needs three frames.
\<close>

theorem boolean_price_recorded_witness:
  "extract_price_info ascii_lower float_of_ascii py_sum
     (JDict [(''inStock'', JBool True), (''hasValue'', JBool True), (''bestPrice'', JBool False)])
     = Inr \<lparr>lowest_price = Some (Finite 1), highest_price = Some (Finite 1),
            average_price = Some (Finite 1), all_prices = [Finite 1]\<rparr> \<and>
   Finite 1 \<in> set [Finite 1 :: pyfloat] \<and>
   visit_item ascii_lower float_of_ascii (''hasValue'', JBool True) [] = Inr [Finite 1] \<and>
   visit_item ascii_lower float_of_ascii (''bestPrice'', JBool False) [] = Inr [] \<and>
   (\<exists>prices'. walk_within ascii_lower float_of_ascii 3
      (JDict [(''inStock'', JBool True), (''hasValue'', JBool True), (''bestPrice'', JBool False)])
      [] = Inr prices' \<and> Finite 1 \<in> set prices')"
proof -
  let ?d = "[(''inStock'', JBool True), (''hasValue'', JBool True), (''bestPrice'', JBool False)]"
  have r: "extract_price_info ascii_lower float_of_ascii py_sum (JDict ?d)
     = Inr \<lparr>lowest_price = Some (Finite 1), highest_price = Some (Finite 1),
            average_price = Some (Finite 1), all_prices = [Finite 1]\<rparr>"
    by (simp add: walk_eval float_eval)
  have m: "(''hasValue'', JBool True) \<in> set ?d" by simp
  have k: "is_price_key ascii_lower ''hasValue''" by (simp add: walk_eval)
  have f: "ints_in_float_range (JDict ?d) \<and> frames_needed (JDict ?d) \<le> 3" by simp
  note t = boolean_price_recorded [OF m k, of float_of_ascii py_sum]
  from t have "visit_item ascii_lower float_of_ascii (''hasValue'', JBool True) [] = Inr ([] @ [Finite 1])"
    by blast
  moreover from t have "visit_item ascii_lower float_of_ascii (''bestPrice'', JBool False) [] = Inr []"
    by blast
  moreover from t f have "\<exists>prices'. walk_within ascii_lower float_of_ascii 3 (JDict ?d) [] = Inr prices' \<and>
      Finite 1 \<in> set prices'"
    by blast
  ultimately show ?thesis using r by simp
qed

text \<open>
  As stated for every mapping, the claim fails on \<^verbatim>\<open>{"amount": 10**309, "price": true}\<close>:
  \<^verbatim>\<open>float(value)\<close> raises \<^verbatim>\<open>OverflowError\<close> at the first item, outside the \<^verbatim>\<open>try\<close> block,
  so the walk ends before it reaches the boolean and no list of prices is returned,
  whatever the recursion limit.
\<close>

theorem boolean_price_not_recorded_counterexample:
  "(''price'', JBool True) \<in> set [(''amount'', JInt (10 ^ 309)), (''price'', JBool True)] \<and>
   is_price_key ascii_lower ''price'' \<and>
   overflow_before_true_example = JDict [(''amount'', JInt (10 ^ 309)), (''price'', JBool True)] \<and>
   walk ascii_lower float_of_ascii overflow_before_true_example [] = Inl OverflowError \<and>
   (\<forall>n prices'. walk_within ascii_lower float_of_ascii n overflow_before_true_example []
       \<noteq> Inr prices') \<and>
   walk_within ascii_lower float_of_ascii 3 overflow_before_true_example [] = Inl OverflowError \<and>
   extract_price_info ascii_lower float_of_ascii py_sum overflow_before_true_example
     = Inl OverflowError"
proof -
  have "(2::int) ^ 1024 \<le> 10 ^ 309" by simp
  then have o: "float_of_int (10 ^ 309) = Inl OverflowError" by (rule float_of_int_overflow)
  have k: "is_price_key ascii_lower ''amount''" "is_price_key ascii_lower ''price''"
    by (simp_all add: walk_eval)
  have v: "visit_item ascii_lower float_of_ascii (''amount'', JInt (10 ^ 309)) [] = Inl OverflowError"
    using o k(1) by (simp add: visit_item_def)
  have w: "walk ascii_lower float_of_ascii overflow_before_true_example [] = Inl OverflowError"
    using v by (simp add: overflow_before_true_example_def)
  have n: "walk_within ascii_lower float_of_ascii n overflow_before_true_example [] \<noteq> Inr prices'"
    for n prices'
    using walk_within_returns(1)[of ascii_lower float_of_ascii n overflow_before_true_example "[]" prices'] w
    by auto
  have "frames_needed overflow_before_true_example \<le> 3"
    by (simp add: overflow_before_true_example_def)
  from walk_within_enough(1)[OF this] w
  have b: "walk_within ascii_lower float_of_ascii 3 overflow_before_true_example [] = Inl OverflowError"
    by simp
  have e: "extract_price_info ascii_lower float_of_ascii py_sum overflow_before_true_example
     = Inl OverflowError"
    using w by (simp add: extract_price_info_def)
  from k(2) w n b e show ?thesis by (simp add: overflow_before_true_example_def)
qed

lemma visit_items_append:
  "visit_items lower pfloat (a @ b) prices =
     (case visit_items lower pfloat a prices of
        Inl e \<Rightarrow> Inl e
      | Inr prices' \<Rightarrow> visit_items lower pfloat b prices')"
  by (induction a arbitrary: prices) (simp_all split: sum.splits)

lemma walk_values_append:
  "walk_values lower pfloat (a @ b) prices =
     (case walk_values lower pfloat a prices of
        Inl e \<Rightarrow> Inl e
      | Inr prices' \<Rightarrow> walk_values lower pfloat b prices')"
  by (induction a arbitrary: prices) (simp_all split: sum.splits)

lemma visit_item_failed_string:
  assumes "pfloat (py_remove ''$'' (py_remove yen (py_remove '','' s))) = None"
  shows "visit_item lower pfloat (key, JStr s) prices = Inr prices"
  using assms by (simp add: visit_item_def)

lemma walk_skips_failed_string:
  assumes "pfloat (py_remove ''$'' (py_remove yen (py_remove '','' s))) = None"
  shows "walk lower pfloat (JDict (d1 @ (key, JStr s) # d2)) prices =
         walk lower pfloat (JDict (d1 @ d2)) prices"
proof -
  have v: "visit_items lower pfloat (d1 @ (key, JStr s) # d2) p =
           visit_items lower pfloat (d1 @ d2) p" for p
    using assms
    by (simp add: visit_items_append visit_item_failed_string[where pfloat = pfloat] split: sum.splits)
  have w: "walk_values lower pfloat (d1 @ (key, JStr s) # d2) p =
           walk_values lower pfloat (d1 @ d2) p" for p
    by (simp add: walk_values_append split: sum.splits)
  show ?thesis by (simp add: v w cong: sum.case_cong)
qed

text \<open>
  Claim C4. Under the key \<^verbatim>\<open>minPrice\<close> the string \<^verbatim>\<open>"1,234"\<close> is recorded as \<^verbatim>\<open>1234.0\<close>.
  \<^verbatim>\<open>float\<close> fails on \<^verbatim>\<open>"abc"\<close>, and an item whose string fails to coerce is skipped: it
  records nothing, raises nothing, and the walk of the mapping goes on as if the item were
  not there, so the other items and the nested values are still visited.
\<close>

theorem string_price_coercion:
  "visit_item ascii_lower float_of_ascii (''minPrice'', JStr ''1,234'') prices
     = Inr (prices @ [Finite 1234]) \<and>
   float_of_ascii (py_remove ''$'' (py_remove yen (py_remove '','' ''abc''))) = None \<and>
   (pfloat (py_remove ''$'' (py_remove yen (py_remove '','' s))) = None \<longrightarrow>
      visit_item lower pfloat (key, JStr s) prices = Inr prices \<and>
      walk lower pfloat (JDict (d1 @ (key, JStr s) # d2)) prices =
      walk lower pfloat (JDict (d1 @ d2)) prices)"
proof (intro conjI impI)
  show "visit_item ascii_lower float_of_ascii (''minPrice'', JStr ''1,234'') prices
     = Inr (prices @ [Finite 1234])"
    by (simp add: walk_eval float_of_ascii_1234)
  show "float_of_ascii (py_remove ''$'' (py_remove yen (py_remove '','' ''abc''))) = None"
    by (simp add: yen_def float_of_ascii_abc)
next
  assume a: "pfloat (py_remove ''$'' (py_remove yen (py_remove '','' s))) = None"
  from a show "visit_item lower pfloat (key, JStr s) prices = Inr prices"
    by (simp add: visit_item_def)
  from a show "walk lower pfloat (JDict (d1 @ (key, JStr s) # d2)) prices =
      walk lower pfloat (JDict (d1 @ d2)) prices"
    by (rule walk_skips_failed_string[where pfloat = pfloat and s = s])
qed

lemma float_of_ascii_5: "float_of_ascii ''5'' = Some (Finite 5)"
  by (simp add: parse_eval float_eval)

theorem string_price_coercion_witness:
  "extract_price_info ascii_lower float_of_ascii py_sum
     (JDict [(''minPrice'', JStr ''abc''), (''maxPrice'', JStr ''1,234''),
             (''offers'', JList [JDict [(''amount'', JStr (yen @ ''5''))]])])
     = Inr \<lparr>lowest_price = Some (Finite 5), highest_price = Some (Finite 1234),
            average_price = Some (Finite (1239 / 2)), all_prices = [Finite 1234, Finite 5]\<rparr> \<and>
   walk ascii_lower float_of_ascii
     (JDict [(''minPrice'', JStr ''abc''), (''maxPrice'', JStr ''1,234''),
             (''offers'', JList [JDict [(''amount'', JStr (yen @ ''5''))]])]) []
     = walk ascii_lower float_of_ascii
         (JDict [(''maxPrice'', JStr ''1,234''),
                 (''offers'', JList [JDict [(''amount'', JStr (yen @ ''5''))]])]) [] \<and>
   visit_item ascii_lower float_of_ascii (''minPrice'', JStr ''1,234'') [] = Inr [Finite 1234]"
proof -
  let ?rest = "[(''maxPrice'', JStr ''1,234''),
                (''offers'', JList [JDict [(''amount'', JStr (yen @ ''5''))]])]"
  have r: "extract_price_info ascii_lower float_of_ascii py_sum
     (JDict ((''minPrice'', JStr ''abc'') # ?rest))
     = Inr \<lparr>lowest_price = Some (Finite 5), highest_price = Some (Finite 1234),
            average_price = Some (Finite (1239 / 2)), all_prices = [Finite 1234, Finite 5]\<rparr>"
    by (simp add: walk_eval float_of_ascii_abc float_of_ascii_1234 float_of_ascii_5 float_eval)
  note t = string_price_coercion [of "[]" float_of_ascii "''abc''" ascii_lower "''minPrice''" "[]" ?rest]
  from t have "walk ascii_lower float_of_ascii (JDict ([] @ (''minPrice'', JStr ''abc'') # ?rest)) []
     = walk ascii_lower float_of_ascii (JDict ([] @ ?rest)) []"
    by blast
  moreover from t have "visit_item ascii_lower float_of_ascii (''minPrice'', JStr ''1,234'') []
     = Inr ([] @ [Finite 1234])"
    by blast
  ultimately show ?thesis using r by simp
qed

text \<open>
  Claim C8. On \<^verbatim>\<open>{"streetwears":[{"id":1,"minPrice":"$1,000"},{"id":2,"minPrice":500}]}\<close>
  the shape extractor returns the empty sequence, and the price walker returns
  \<^verbatim>\<open>all_prices = [1000.0, 500.0]\<close>, \<^verbatim>\<open>lowest = 500.0\<close>, \<^verbatim>\<open>highest = 1000.0\<close> and
  \<^verbatim>\<open>average = 750.0\<close>.
\<close>

theorem streetwears_example_result:
  "extract_cards_from_response streetwears_example = [] \<and>
   extract_price_info ascii_lower float_of_ascii py_sum streetwears_example =
     Inr \<lparr>lowest_price = Some (Finite 500), highest_price = Some (Finite 1000),
          average_price = Some (Finite 750), all_prices = [Finite 1000, Finite 500]\<rparr>"
  by (simp add: streetwears_example_def candidate_keys_def walk_eval float_of_ascii_1000 float_eval)

section \<open>Which inputs the extractors return on\<close>





section \<open>Properties of the price summary\<close>

















end
